theory Spec2Isabelle
  imports
    Main
    "HOL-Library.Mapping"
    "HOL-Library.AList_Mapping"
    "HOL-Library.AList"
    "HOL-Library.Sublist"
    "HOL-Library.Monad_Syntax"
    "HOL-Library.Word"
begin

unbundle bit_operations_syntax

section \<open>Resource vectors\<close>

text \<open>
  The file \<^verbatim>\<open>pkg/scheduler/objects/preemption.go\<close> works on values of
  \<^verbatim>\<open>*resources.Resource\<close>. The package \<^verbatim>\<open>pkg/common/resources\<close> is not part of
  the sources at hand, so its operations are taken from section 3 and section 4.A of the
  specification. A resource vector is a finite map from resource names to signed integer
  quantities; a key can be present with quantity zero, which the ``only existing''
  operations can tell from an absent key.
\<close>

type_synonym Resource = "(string, int) mapping"

text \<open>Modelled from the spec: \<^verbatim>\<open>resources.Zero\<close> / \<^verbatim>\<open>resources.NewResource()\<close>,
  ``\<^verbatim>\<open>Zero\<close> is the empty vector''.\<close>
definition Zero :: Resource where
  "Zero = Mapping.empty"

text \<open>The quantity of a component, a missing key read as zero (``treating missing keys
  as zero'').\<close>
definition Quantity :: "Resource \<Rightarrow> string \<Rightarrow> int" where
  "Quantity r k = Mapping.lookup_default 0 r k"

text \<open>Modelled from the spec: the operations of the package on a nil pointer. A nil vector
  counts as the empty vector (``if both this node's guarantee and the parent's are empty'',
  where the parent's remaining guarantee may be nil).\<close>
definition nilAsZero :: "Resource option \<Rightarrow> Resource" where
  "nilAsZero r = (case r of None \<Rightarrow> Zero | Some x \<Rightarrow> x)"

text \<open>Modelled from the spec: \<^verbatim>\<open>resources.Add\<close> and the in-place \<^verbatim>\<open>AddTo\<close>,
  component-wise addition over the union of the keys.\<close>
definition Add :: "Resource \<Rightarrow> Resource \<Rightarrow> Resource" where
  "Add l r = Mapping.combine (+) l r"

text \<open>Modelled from the spec: the in-place \<^verbatim>\<open>SubFrom\<close>, component-wise subtraction
  over the union of the keys.\<close>
definition Sub :: "Resource \<Rightarrow> Resource \<Rightarrow> Resource" where
  "Sub l r = Mapping.combine (+) l (Mapping.map_values (\<lambda>_ v. - v) r)"

text \<open>Modelled from the spec: \<^verbatim>\<open>resources.SubEliminateNegative\<close>, ``truncate each
  component at zero''.\<close>
definition SubEliminateNegative :: "Resource \<Rightarrow> Resource \<Rightarrow> Resource" where
  "SubEliminateNegative l r = Mapping.map_values (\<lambda>_ v. max 0 v) (Sub l r)"

text \<open>Modelled from the spec: \<^verbatim>\<open>resources.SubOnlyExisting\<close>, ``subtract only over keys
  present in the minuend''.\<close>
definition SubOnlyExisting :: "Resource \<Rightarrow> Resource \<Rightarrow> Resource" where
  "SubOnlyExisting base delta = Mapping.map_values (\<lambda>k v. v - Quantity delta k) base"

text \<open>Modelled from the spec: \<^verbatim>\<open>IsEmpty\<close>. Section 4.A glosses it ``no components or all
  zero''. The source calls it to find out whether a guarantee has been set (``No Guaranteed
  set'' at line 736, ``only if guaranteed has been set'' at lines 750 to 753) and whether a
  queue has any usage, so a vector is empty when it has no component; a component that is
  present with quantity zero is a value that has been set.\<close>
definition IsEmpty :: "Resource \<Rightarrow> bool" where
  "IsEmpty r = Mapping.is_empty r"

text \<open>Modelled from the spec: \<^verbatim>\<open>resources.StrictlyGreaterThanOrEquals\<close>, element-wise
  \<open>\<ge>\<close> over the union of the keys.\<close>
definition StrictlyGreaterThanOrEquals :: "Resource \<Rightarrow> Resource \<Rightarrow> bool" where
  "StrictlyGreaterThanOrEquals larger smaller =
     (\<forall>k \<in> Mapping.keys larger \<union> Mapping.keys smaller. Quantity smaller k \<le> Quantity larger k)"

text \<open>Modelled from the spec: \<^verbatim>\<open>resources.StrictlyGreaterThan\<close>, element-wise strict
  \<open>>\<close>: no component smaller and at least one component greater.\<close>
definition StrictlyGreaterThan :: "Resource \<Rightarrow> Resource \<Rightarrow> bool" where
  "StrictlyGreaterThan larger smaller =
     (StrictlyGreaterThanOrEquals larger smaller \<and>
      (\<exists>k \<in> Mapping.keys larger \<union> Mapping.keys smaller. Quantity smaller k < Quantity larger k))"

text \<open>Modelled from the spec: \<^verbatim>\<open>FitIn(req)\<close>, ``every component of \<^verbatim>\<open>req\<close> is \<open>\<le>\<close> the
  corresponding component of the subject''.\<close>
definition FitIn :: "Resource \<Rightarrow> Resource \<Rightarrow> bool" where
  "FitIn subject req = (\<forall>k \<in> Mapping.keys req. Quantity req k \<le> Quantity subject k)"

text \<open>Modelled from the spec: \<^verbatim>\<open>StrictlyGreaterThanOnlyExisting\<close>, ``strict \<open>>\<close> over keys
  present in the left'': the element-wise strict \<open>>\<close> of \<^verbatim>\<open>StrictlyGreaterThan\<close>, compared on
  the keys of the left operand only. No such component of the left operand is smaller, and at
  least one is greater.\<close>
definition StrictlyGreaterThanOnlyExisting :: "Resource \<Rightarrow> Resource \<Rightarrow> bool" where
  "StrictlyGreaterThanOnlyExisting r smaller =
     ((\<forall>k \<in> Mapping.keys r. Quantity smaller k \<le> Quantity r k) \<and>
      (\<exists>k \<in> Mapping.keys r. Quantity smaller k < Quantity r k))"

text \<open>Modelled from the spec: \<^verbatim>\<open>resources.ComponentWiseMin\<close>. A component defined on one
  side only is taken from that side, so that a queue without a guarantee of its own inherits
  the one of its parent.\<close>
definition ComponentWiseMin :: "Resource \<Rightarrow> Resource \<Rightarrow> Resource" where
  "ComponentWiseMin l r = Mapping.combine min l r"

text \<open>Modelled from the spec: \<^verbatim>\<open>resources.ComponentWiseMinOnlyExisting\<close>, the minimum
  ``only for resource types in'' the left operand.\<close>
definition ComponentWiseMinOnlyExisting :: "Resource \<Rightarrow> Resource \<Rightarrow> Resource" where
  "ComponentWiseMinOnlyExisting l r =
     Mapping.map_values (\<lambda>k v. case Mapping.lookup r k of None \<Rightarrow> v | Some w \<Rightarrow> min v w) l"

text \<open>Modelled from the spec: \<^verbatim>\<open>MergeIfNotPresent(primary, fallback)\<close>, ``take each key
  from primary, else from fallback''.\<close>
definition MergeIfNotPresent :: "Resource \<Rightarrow> Resource \<Rightarrow> Resource" where
  "MergeIfNotPresent primary fallback = Mapping.combine (\<lambda>a b. a) primary fallback"

text \<open>Modelled from the spec: strict comparison for equality, ``over the union of keys,
  treating missing keys as zero''.\<close>
definition Equals :: "Resource \<Rightarrow> Resource \<Rightarrow> bool" where
  "Equals l r = (\<forall>k \<in> Mapping.keys l \<union> Mapping.keys r. Quantity l k = Quantity r k)"

text \<open>Modelled from the spec: \<^verbatim>\<open>resources.EqualsOrEmpty\<close>, ``strict equality or both
  empty''.\<close>
definition EqualsOrEmpty :: "Resource \<Rightarrow> Resource \<Rightarrow> bool" where
  "EqualsOrEmpty l r = ((IsEmpty l \<and> IsEmpty r) \<or> Equals l r)"

text \<open>Every component present in the vector is strictly positive.\<close>
definition positive :: "Resource \<Rightarrow> bool" where
  "positive r = (\<forall>k v. Mapping.lookup r k = Some v \<longrightarrow> 0 < v)"

section \<open>Allocations\<close>

text \<open>
  An allocation as this file reads and writes it (spec section 3). Times are instants on a
  linear clock, in nanoseconds. The lists of this development hold allocations as they are
  when the preemptor is created; that \<^verbatim>\<open>TryPreemption\<close> marks a victim preempted is
  recorded among its effects.
\<close>

record Allocation =
  allocationKey :: string
  applicationID :: string
  nodeID :: string
  allocatedResource :: Resource
  createTime :: int
  isOriginator :: bool
  allowPreemptSelf :: bool
  allowPreemptOther :: bool
  requiredNode :: string
  hasTriggeredPreemption :: bool
  preemptCheckTime :: int

text \<open>The available resources of a node after the given victims have been taken off it,
  and the component-wise sum of the allocated resources of a list of victims.\<close>

definition sumAvailable :: "Resource \<Rightarrow> Allocation list \<Rightarrow> Resource" where
  "sumAvailable nodeAvailable victims =
     foldl (\<lambda>acc victim. Add acc (allocatedResource victim)) nodeAvailable victims"

definition sumAllocated :: "Allocation list \<Rightarrow> Resource" where
  "sumAllocated victims = sumAvailable Zero victims"


section \<open>Queue snapshots\<close>

text \<open>
  Snapshots are heap objects linked by the pointers \<^verbatim>\<open>Parent\<close> and \<^verbatim>\<open>AskQueue\<close>; siblings
  share their ancestors, and \<^verbatim>\<open>AddAllocation\<close> writes through the parent pointers. The heap
  is a list of snapshots, a pointer is an index into it and \<open>None\<close> is nil. The four
  resource vectors of a snapshot are owned copies (spec section 3); a nil vector in a field
  is the empty vector.
\<close>

record QueuePreemptionSnapshot =
  Parent :: "nat option"
  QueuePath :: string
  Leaf :: bool
  AllocatedResource :: Resource
  PreemptingResource :: Resource
  MaxResource :: Resource
  GuaranteedResource :: Resource
  PotentialVictims :: "Allocation list"
  AskQueue :: "nat option"

type_synonym heap = "QueuePreemptionSnapshot list"

text \<open>
  The methods below follow the parent pointers. On a cyclic chain the source does not
  return; the model then has no result (\<open>None\<close>), as it has for a pointer outside the heap.
\<close>

partial_function (option) AddAllocation :: "heap \<Rightarrow> nat option \<Rightarrow> Resource \<Rightarrow> heap option" where
  "AddAllocation h qps alloc =
     (case qps of
        None \<Rightarrow> Some h
      | Some a \<Rightarrow>
          if length h \<le> a then None
          else do {
            h1 \<leftarrow> AddAllocation h (Parent (h ! a)) alloc;
            Some (h1[a := (h1 ! a)\<lparr>AllocatedResource := Add (AllocatedResource (h1 ! a)) alloc\<rparr>])
          })"

partial_function (option) RemoveAllocation :: "heap \<Rightarrow> nat option \<Rightarrow> Resource \<Rightarrow> heap option" where
  "RemoveAllocation h qps alloc =
     (case qps of
        None \<Rightarrow> Some h
      | Some a \<Rightarrow>
          if length h \<le> a then None
          else do {
            h1 \<leftarrow> RemoveAllocation h (Parent (h ! a)) alloc;
            Some (h1[a := (h1 ! a)\<lparr>AllocatedResource := Sub (AllocatedResource (h1 ! a)) alloc\<rparr>])
          })"

partial_function (option) GetPreemptableResource :: "heap \<Rightarrow> nat option \<Rightarrow> Resource option option" where
  "GetPreemptableResource h qps =
     (case qps of
        None \<Rightarrow> Some None
      | Some a \<Rightarrow>
          if length h \<le> a then None
          else if IsEmpty (AllocatedResource (h ! a)) then Some None
          else do {
            parentPreemptableResource \<leftarrow> GetPreemptableResource h (Parent (h ! a));
            let actual = SubOnlyExisting (AllocatedResource (h ! a)) (PreemptingResource (h ! a));
                guaranteed = GuaranteedResource (h ! a);
                actual = SubOnlyExisting actual guaranteed;
                preemptableResource = Mapping.filter (\<lambda>k v. \<not> v \<le> 0) actual
            in if IsEmpty preemptableResource then Some (Some preemptableResource)
               else Some (Some (ComponentWiseMinOnlyExisting preemptableResource
                                  (nilAsZero parentPreemptableResource)))
          })"

partial_function (option) GetRemainingGuaranteedResource :: "heap \<Rightarrow> nat option \<Rightarrow> Resource option option" where
  "GetRemainingGuaranteedResource h qps =
     (case qps of
        None \<Rightarrow> Some None
      | Some a \<Rightarrow>
          if length h \<le> a then None
          else do {
            parent \<leftarrow> GetRemainingGuaranteedResource h (Parent (h ! a));
            let remainingGuaranteed = GuaranteedResource (h ! a)
            in if IsEmpty (nilAsZero parent) \<and> IsEmpty remainingGuaranteed then Some None
               else
                 let used = SubOnlyExisting (AllocatedResource (h ! a)) (PreemptingResource (h ! a));
                     remainingGuaranteed = SubOnlyExisting remainingGuaranteed used
                 in (case AskQueue (h ! a) of
                       None \<Rightarrow> Some (Some (ComponentWiseMin remainingGuaranteed (nilAsZero parent)))
                     | Some aq \<Rightarrow>
                         if length h \<le> aq then None
                         else if QueuePath (h ! aq) = QueuePath (h ! a) \<and> \<not> IsEmpty remainingGuaranteed
                         then Some (Some (MergeIfNotPresent remainingGuaranteed (nilAsZero parent)))
                         else
                           let askQueueRemainingGuaranteed = GuaranteedResource (h ! aq);
                               askQueueUsed = AllocatedResource (h ! aq);
                               askQueueUsed = SubOnlyExisting askQueueUsed (PreemptingResource (h ! aq));
                               askQueueRemainingGuaranteed =
                                 SubOnlyExisting askQueueRemainingGuaranteed askQueueUsed
                           in if \<not> IsEmpty remainingGuaranteed
                                 \<and> prefix (QueuePath (h ! a)) (QueuePath (h ! aq))
                                 \<and> \<not> IsEmpty askQueueRemainingGuaranteed
                              then Some None
                              else Some (Some (ComponentWiseMin remainingGuaranteed (nilAsZero parent))))
          })"

declare AddAllocation.simps [code]
declare RemoveAllocation.simps [code]
declare GetPreemptableResource.simps [code]
declare GetRemainingGuaranteedResource.simps [code]

text \<open>
  \<^verbatim>\<open>Duplicate\<close> copies a snapshot and its ancestors into the map \<^verbatim>\<open>copy\<close>, keyed by queue
  path. The map is an association list, iterated in insertion order; a new snapshot is
  allocated at the end of the heap.
\<close>

partial_function (option) Duplicate ::
  "heap \<Rightarrow> (string \<times> nat) list \<Rightarrow> nat option \<Rightarrow> (heap \<times> (string \<times> nat) list \<times> nat option) option" where
  "Duplicate h copy qps =
     (case qps of
        None \<Rightarrow> Some (h, copy, None)
      | Some a \<Rightarrow>
          if length h \<le> a then None
          else (case map_of copy (QueuePath (h ! a)) of
                  Some existing \<Rightarrow> Some (h, copy, Some existing)
                | None \<Rightarrow> do {
                    (h2, copy2, parent) \<leftarrow>
                      (case Parent (h ! a) of
                         None \<Rightarrow> Some (h, copy, None)
                       | Some pa \<Rightarrow> do {
                           (h1, copy1, _) \<leftarrow> Duplicate h copy (Some pa);
                           Duplicate h1 copy1 (Parent (h1 ! a))
                         });
                    let snapshot = \<lparr>Parent = parent,
                                    QueuePath = QueuePath (h2 ! a),
                                    Leaf = Leaf (h2 ! a),
                                    AllocatedResource = AllocatedResource (h2 ! a),
                                    PreemptingResource = PreemptingResource (h2 ! a),
                                    MaxResource = MaxResource (h2 ! a),
                                    GuaranteedResource = GuaranteedResource (h2 ! a),
                                    PotentialVictims = PotentialVictims (h2 ! a),
                                    AskQueue = AskQueue (h2 ! a)\<rparr>
                    in Some (h2 @ [snapshot], AList.update (QueuePath (h2 ! a)) (length h2) copy2,
                             Some (length h2))
                  }))"

declare Duplicate.simps [code]

text \<open>The ancestor chain of a snapshot: the snapshot, its parent, and so on up to the
  root. It exists exactly when following the parent pointers ends.\<close>

inductive chain :: "heap \<Rightarrow> nat option \<Rightarrow> nat list \<Rightarrow> bool" where
  chain_nil: "chain h None []"
| chain_cons: "a < length h \<Longrightarrow> chain h (Parent (h ! a)) as \<Longrightarrow> chain h (Some a) (a # as)"


section \<open>Nodes, the preemptor and its collaborators\<close>

text \<open>Modelled from the spec: the node queries of section 6 (\<^verbatim>\<open>IsSchedulable\<close>, \<^verbatim>\<open>IsReserved\<close>,
  \<^verbatim>\<open>isReservedForAllocation\<close>, \<^verbatim>\<open>FitInNode\<close>, \<^verbatim>\<open>GetAvailableResource\<close>); the type
  \<^verbatim>\<open>Node\<close> is declared outside this file. A node fits a request when the request fits ``at
  maximum capacity''.\<close>
record Node =
  NodeID :: string
  schedulable :: bool
  reservations :: "string list"
  totalResource :: Resource
  availableResource :: Resource

definition IsReserved :: "Node \<Rightarrow> bool" where
  "IsReserved node = (reservations node \<noteq> [])"

definition isReservedForAllocation :: "Node \<Rightarrow> string \<Rightarrow> bool" where
  "isReservedForAllocation node key = (key \<in> set (reservations node))"

definition FitInNode :: "Node \<Rightarrow> Resource \<Rightarrow> bool" where
  "FitInNode node res = FitIn (totalResource node) res"

text \<open>The arguments of a predicate check. The start index is an \<^verbatim>\<open>int32\<close> in the source; it
  is bounded by the number of victims of a node and modelled as an integer.\<close>

record PreemptionPredicatesArgs =
  args_AllocationKey :: string
  args_NodeID :: string
  args_PreemptAllocationKeys :: "string list"
  args_StartIndex :: int

record predicateCheckResult =
  pcr_allocationKey :: string
  pcr_nodeID :: string
  pcr_success :: bool
  pcr_index :: int
  pcr_victims :: "Allocation list option"

text \<open>
  The fields of \<^verbatim>\<open>Preemptor\<close> that this file uses. The four work maps are nil until they
  are populated; a map is an association list, iterated in list order.
\<close>

record Preemptor =
  queuePath :: string
  preemptionDelay :: int
  ask :: Allocation
  nodesTried :: bool
  allocationsByQueue :: "(string \<times> nat) list option"
  queueByAlloc :: "(string \<times> nat) list option"
  allocationsByNode :: "(string \<times> Allocation list) list option"
  nodeAvailableMap :: "(string \<times> Resource) list option"

text \<open>
  What the preemptor asks of the objects around it: the snapshots the queue returns from
  \<^verbatim>\<open>FindEligiblePreemptionVictims\<close> (they live in the heap), the nodes the iterator visits,
  the queue an application runs in, and the registered resource manager callback. With a
  callback registered, \<^verbatim>\<open>checkPreemptionPredicates\<close> fans the sorted checks out in
  concurrent batches and folds the answers with comparators declared outside this file; the
  best result of that fold is what \<open>plugin\<close> returns.
\<close>

record Collaborators =
  FindEligiblePreemptionVictims :: "(string \<times> nat) list option"
  nodes :: "Node list"
  FindQueueByAppID :: "string \<Rightarrow> string option"
  plugin :: "(PreemptionPredicatesArgs list \<Rightarrow> predicateCheckResult option) option"

definition mapEntries :: "('k \<times> 'v) list option \<Rightarrow> ('k \<times> 'v) list" where
  "mapEntries m = (case m of None \<Rightarrow> [] | Some xs \<Rightarrow> xs)"

text \<open>The elements of a slice that may be nil.\<close>
definition sliceOf :: "'a list option \<Rightarrow> 'a list" where
  "sliceOf xs = (case xs of None \<Rightarrow> [] | Some ys \<Rightarrow> ys)"

definition mapLookup :: "('k \<times> 'v) list option \<Rightarrow> 'k \<Rightarrow> 'v option" where
  "mapLookup m k = map_of (mapEntries m) k"

section \<open>The precondition gate\<close>

definition preemptAttemptFrequency :: int where
  "preemptAttemptFrequency = 15 * 1000000000"

text \<open>Modelled from the spec: \<^verbatim>\<open>Allocation.UpdatePreemptCheckTime\<close>, ``update
  \<^verbatim>\<open>ask.preemptCheckTime = now\<close>''.\<close>
definition UpdatePreemptCheckTime :: "int \<Rightarrow> Allocation \<Rightarrow> Allocation" where
  "UpdatePreemptCheckTime now a = a\<lparr>preemptCheckTime := now\<rparr>"

text \<open>\<^verbatim>\<open>CheckPreconditions\<close>, with the clock reading \<^verbatim>\<open>time.Now()\<close> as an argument. It
  returns its result and the preemptor, whose ask it may have updated.\<close>
definition CheckPreconditions :: "int \<Rightarrow> Preemptor \<Rightarrow> bool \<times> Preemptor" where
  "CheckPreconditions now p =
     (if \<not> allowPreemptOther (ask p) then (False, p)
      else if hasTriggeredPreemption (ask p) then (False, p)
      else if requiredNode (ask p) \<noteq> [] then (False, p)
      else if now < createTime (ask p) + preemptionDelay p then (False, p)
      else if now < preemptCheckTime (ask p) + preemptAttemptFrequency then (False, p)
      else (True, p\<lparr>ask := UpdatePreemptCheckTime now (ask p)\<rparr>))"

section \<open>Victim ordering\<close>

text \<open>\<^verbatim>\<open>sort.SliceStable\<close>: elements are inserted in their original order, each one before
  the first element it is less than.\<close>

fun insertStable :: "('a \<Rightarrow> 'a \<Rightarrow> bool) \<Rightarrow> 'a \<Rightarrow> 'a list \<Rightarrow> 'a list" where
  "insertStable lt x [] = [x]"
| "insertStable lt x (y # ys) = (if lt x y then x # y # ys else y # insertStable lt x ys)"

definition SliceStable :: "('a \<Rightarrow> 'a \<Rightarrow> bool) \<Rightarrow> 'a list \<Rightarrow> 'a list" where
  "SliceStable lt xs = foldl (\<lambda>acc x. insertStable lt x acc) [] xs"

text \<open>The order \<^verbatim>\<open><\<close> of Go strings, byte by byte.\<close>
fun stringLess :: "string \<Rightarrow> string \<Rightarrow> bool" where
  "stringLess [] [] = False"
| "stringLess [] (y # ys) = True"
| "stringLess (x # xs) [] = False"
| "stringLess (x # xs) (y # ys) =
     ((of_char x :: nat) < of_char y \<or> (x = y \<and> stringLess xs ys))"

definition scoreOriginator :: "64 word" where
  "scoreOriginator = push_bit 33 1"

definition scoreNoPreempt :: "64 word" where
  "scoreNoPreempt = push_bit 34 1"

definition scoreAllocation :: "Allocation \<Rightarrow> 64 word" where
  "scoreAllocation allocation =
     (let score = 0;
          score = (if isOriginator allocation then score OR scoreOriginator else score);
          score = (if \<not> allowPreemptSelf allocation then score OR scoreNoPreempt else score)
      in score)"

definition compareAllocationLess :: "Allocation \<Rightarrow> Allocation \<Rightarrow> bool" where
  "compareAllocationLess left right =
     (let scoreLeft = scoreAllocation left; scoreRight = scoreAllocation right
      in if scoreLeft \<noteq> scoreRight then scoreLeft < scoreRight
         else createTime right < createTime left)"

definition sortVictimsLess :: "Allocation \<Rightarrow> Allocation \<Rightarrow> bool" where
  "sortVictimsLess leftAsk rightAsk =
     (if allowPreemptSelf leftAsk \<and> \<not> allowPreemptSelf rightAsk then True
      else if allowPreemptSelf rightAsk \<and> \<not> allowPreemptSelf leftAsk then False
      else if isOriginator leftAsk \<and> \<not> isOriginator rightAsk then False
      else if isOriginator rightAsk \<and> \<not> isOriginator leftAsk then True
      else createTime rightAsk < createTime leftAsk)"

definition sortVictimsForPreemption ::
  "(string \<times> Allocation list) list \<Rightarrow> (string \<times> Allocation list) list" where
  "sortVictimsForPreemption byNode =
     map (\<lambda>(n, allocations). (n, SliceStable sortVictimsLess allocations)) byNode"

section \<open>The working state\<close>

definition initQueueSnapshots :: "Collaborators \<Rightarrow> Preemptor \<Rightarrow> Preemptor" where
  "initQueueSnapshots c p =
     (if allocationsByQueue p \<noteq> None then p
      else p\<lparr>allocationsByQueue := FindEligiblePreemptionVictims c\<rparr>)"

fun initWorkingState_victims ::
  "nat \<Rightarrow> (string \<times> Allocation list) list \<Rightarrow> (string \<times> nat) list \<Rightarrow> Allocation list
   \<Rightarrow> (string \<times> Allocation list) list \<times> (string \<times> nat) list" where
  "initWorkingState_victims victims byNode byAlloc [] = (byNode, byAlloc)"
| "initWorkingState_victims victims byNode byAlloc (allocation # rest) =
     (let nid = nodeID allocation;
          allocations = (case map_of byNode nid of None \<Rightarrow> [] | Some xs \<Rightarrow> xs)
      in initWorkingState_victims victims
           (AList.update nid (allocations @ [allocation]) byNode)
           (AList.update (allocationKey allocation) victims byAlloc) rest)"

fun initWorkingState_queues ::
  "heap \<Rightarrow> (string \<times> Allocation list) list \<Rightarrow> (string \<times> nat) list \<Rightarrow> (string \<times> nat) list
   \<Rightarrow> ((string \<times> Allocation list) list \<times> (string \<times> nat) list) option" where
  "initWorkingState_queues h byNode byAlloc [] = Some (byNode, byAlloc)"
| "initWorkingState_queues h byNode byAlloc ((path, victims) # rest) =
     (if length h \<le> victims then None
      else (case initWorkingState_victims victims byNode byAlloc
                   (PotentialVictims (h ! victims)) of
              (byNode1, byAlloc1) \<Rightarrow>
                initWorkingState_queues h byNode1 byAlloc1 rest))"

fun initWorkingState_nodes ::
  "Allocation \<Rightarrow> (string \<times> Allocation list) list \<Rightarrow> (string \<times> Resource) list \<Rightarrow> Node list
   \<Rightarrow> (string \<times> Allocation list) list \<times> (string \<times> Resource) list" where
  "initWorkingState_nodes a byNode available [] = (byNode, available)"
| "initWorkingState_nodes a byNode available (node # rest) =
     (if \<not> schedulable node
         \<or> (IsReserved node \<and> \<not> isReservedForAllocation node (allocationKey a))
         \<or> \<not> FitInNode node (allocatedResource a)
      then initWorkingState_nodes a (AList.delete (NodeID node) byNode) available rest
      else initWorkingState_nodes a byNode
             (AList.update (NodeID node) (availableResource node) available) rest)"

definition initWorkingState :: "Collaborators \<Rightarrow> heap \<Rightarrow> Preemptor \<Rightarrow> Preemptor option" where
  "initWorkingState c h p =
     (if nodeAvailableMap p \<noteq> None then Some p
      else
        let p1 = initQueueSnapshots c p
        in do {
          (byNode1, byAlloc1) \<leftarrow>
            initWorkingState_queues h [] [] (mapEntries (allocationsByQueue p1));
          (case initWorkingState_nodes (ask p1) byNode1 [] (nodes c) of
             (byNode2, available2) \<Rightarrow>
               Some (p1\<lparr>allocationsByNode := Some (sortVictimsForPreemption byNode2),
                        queueByAlloc := Some byAlloc1,
                        nodeAvailableMap := Some available2\<rparr>))
        })"

fun duplicateQueueSnapshots_loop ::
  "heap \<Rightarrow> (string \<times> nat) list \<Rightarrow> (string \<times> nat) list \<Rightarrow> (heap \<times> (string \<times> nat) list) option" where
  "duplicateQueueSnapshots_loop h cache [] = Some (h, cache)"
| "duplicateQueueSnapshots_loop h cache ((path, snapshot) # rest) =
     do {
       (h1, cache1, _) \<leftarrow> Duplicate h cache (Some snapshot);
       duplicateQueueSnapshots_loop h1 cache1 rest
     }"

definition duplicateQueueSnapshots :: "heap \<Rightarrow> Preemptor \<Rightarrow> (heap \<times> (string \<times> nat) list) option" where
  "duplicateQueueSnapshots h p = duplicateQueueSnapshots_loop h [] (mapEntries (allocationsByQueue p))"

section \<open>The feasibility precheck\<close>

text \<open>The test applied to a victim's queue after the victim has been taken out of it: the
  queue is still over its guarantee, and it was over it before.\<close>
definition victimAccepted :: "Resource option \<Rightarrow> Resource option \<Rightarrow> bool" where
  "victimAccepted preemptableResource oldRemaining =
     (StrictlyGreaterThanOrEquals (nilAsZero preemptableResource) Zero \<and>
      (case oldRemaining of None \<Rightarrow> True | Some r \<Rightarrow> StrictlyGreaterThan Zero r))"

text \<open>A nil-checked comparison of a remaining guarantee with zero.\<close>
definition remainingNegative :: "Resource option \<Rightarrow> bool" where
  "remainingNegative r = (case r of None \<Rightarrow> False | Some x \<Rightarrow> StrictlyGreaterThan Zero x)"

definition remainingCovers :: "Resource option \<Rightarrow> bool" where
  "remainingCovers r = (case r of None \<Rightarrow> False | Some x \<Rightarrow> StrictlyGreaterThanOrEquals x Zero)"

fun checkPreemptionQueueGuarantees_victims ::
  "heap \<Rightarrow> nat \<Rightarrow> nat \<Rightarrow> Allocation list \<Rightarrow> (heap \<times> bool) option" where
  "checkPreemptionQueueGuarantees_victims h currentQueue snapshot [] = Some (h, False)"
| "checkPreemptionQueueGuarantees_victims h currentQueue snapshot (alloc # rest) =
     do {
       h1 \<leftarrow> RemoveAllocation h (Some snapshot) (allocatedResource alloc);
       remaining \<leftarrow> GetRemainingGuaranteedResource h1 (Some currentQueue);
       if remainingCovers remaining then Some (h1, True)
       else checkPreemptionQueueGuarantees_victims h1 currentQueue snapshot rest
     }"

fun checkPreemptionQueueGuarantees_queues ::
  "heap \<Rightarrow> nat \<Rightarrow> (string \<times> nat) list \<Rightarrow> (heap \<times> bool) option" where
  "checkPreemptionQueueGuarantees_queues h currentQueue [] = Some (h, False)"
| "checkPreemptionQueueGuarantees_queues h currentQueue ((path, snapshot) # rest) =
     (if length h \<le> snapshot then None
      else do {
        (h1, found) \<leftarrow> checkPreemptionQueueGuarantees_victims h currentQueue snapshot
                          (PotentialVictims (h ! snapshot));
        if found then Some (h1, True)
        else checkPreemptionQueueGuarantees_queues h1 currentQueue rest
      })"

definition checkPreemptionQueueGuarantees ::
  "Collaborators \<Rightarrow> heap \<Rightarrow> Preemptor \<Rightarrow> (heap \<times> Preemptor \<times> bool) option" where
  "checkPreemptionQueueGuarantees c h p =
     (let p1 = initQueueSnapshots c p
      in do {
        (h1, queues) \<leftarrow> duplicateQueueSnapshots h p1;
        (case map_of queues (queuePath p1) of
           None \<Rightarrow> Some (h1, p1, False)
         | Some currentQueue \<Rightarrow> do {
             h2 \<leftarrow> AddAllocation h1 (Some currentQueue) (allocatedResource (ask p1));
             (h3, found) \<leftarrow> checkPreemptionQueueGuarantees_queues h2 currentQueue queues;
             Some (h3, p1, found)
           })
      })"


section \<open>The per-node victim calculator\<close>

text \<open>
  The first pass of \<^verbatim>\<open>calculateVictimsByNode\<close>. The loop state is the heap, the available
  resources of the node and the lists \<^verbatim>\<open>head\<close> and \<^verbatim>\<open>tail\<close>; \<^verbatim>\<open>break\<close> returns at once.
\<close>

fun calculateVictimsByNode_pass1 ::
  "Preemptor \<Rightarrow> (string \<times> nat) list \<Rightarrow> nat \<Rightarrow> heap \<Rightarrow> Resource \<Rightarrow> Allocation list
   \<Rightarrow> Allocation list \<Rightarrow> Allocation list \<Rightarrow> (heap \<times> Allocation list \<times> Allocation list) option" where
  "calculateVictimsByNode_pass1 p snap askQueue h nodeCurrentAvailable head tail [] =
     Some (h, head, tail)"
| "calculateVictimsByNode_pass1 p snap askQueue h nodeCurrentAvailable head tail (victim # rest) =
     (case mapLookup (queueByAlloc p) (allocationKey victim) of
        None \<Rightarrow> calculateVictimsByNode_pass1 p snap askQueue h nodeCurrentAvailable head tail rest
      | Some qv \<Rightarrow>
          if length h \<le> qv then None
          else (case map_of snap (QueuePath (h ! qv)) of
                  None \<Rightarrow>
                    calculateVictimsByNode_pass1 p snap askQueue h nodeCurrentAvailable head tail rest
                | Some queueSnapshot \<Rightarrow> do {
                    oldRemaining \<leftarrow> GetRemainingGuaranteedResource h (Some queueSnapshot);
                    h1 \<leftarrow> RemoveAllocation h (Some queueSnapshot) (allocatedResource victim);
                    preemptableResource \<leftarrow> GetPreemptableResource h1 (Some queueSnapshot);
                    if victimAccepted preemptableResource oldRemaining then do {
                      h2 \<leftarrow> AddAllocation h1 (Some askQueue) (allocatedResource victim);
                      askQueueNewRemaining \<leftarrow> GetRemainingGuaranteedResource h2 (Some askQueue);
                      if remainingNegative askQueueNewRemaining then do {
                        h3 \<leftarrow> RemoveAllocation h2 (Some askQueue) (allocatedResource victim);
                        h4 \<leftarrow> AddAllocation h3 (Some queueSnapshot) (allocatedResource victim);
                        Some (h4, head, tail)
                      }
                      else
                        let shortfall =
                              SubEliminateNegative (allocatedResource (ask p)) nodeCurrentAvailable;
                            newAvailable = Add nodeCurrentAvailable (allocatedResource victim);
                            newShortfall =
                              SubEliminateNegative (allocatedResource (ask p)) newAvailable
                        in if EqualsOrEmpty shortfall newShortfall then do {
                             h3 \<leftarrow> RemoveAllocation h2 (Some askQueue) (allocatedResource victim);
                             h4 \<leftarrow> AddAllocation h3 (Some queueSnapshot) (allocatedResource victim);
                             calculateVictimsByNode_pass1 p snap askQueue h4 nodeCurrentAvailable
                               head (tail @ [victim]) rest
                           }
                           else
                             calculateVictimsByNode_pass1 p snap askQueue h2
                               (Add nodeCurrentAvailable (allocatedResource victim))
                               (head @ [victim]) tail rest
                    }
                    else do {
                      h2 \<leftarrow> AddAllocation h1 (Some queueSnapshot) (allocatedResource victim);
                      calculateVictimsByNode_pass1 p snap askQueue h2 nodeCurrentAvailable head tail rest
                    }
                  }))"

text \<open>The second pass. The loop state is the heap, the available resources of the node,
  \<^verbatim>\<open>index\<close> and \<^verbatim>\<open>results\<close>.\<close>

fun calculateVictimsByNode_pass2 ::
  "Preemptor \<Rightarrow> (string \<times> nat) list \<Rightarrow> heap \<Rightarrow> Resource \<Rightarrow> int \<Rightarrow> Allocation list
   \<Rightarrow> Allocation list \<Rightarrow> (heap \<times> int \<times> Allocation list) option" where
  "calculateVictimsByNode_pass2 p snap h nodeCurrentAvailable index results [] =
     Some (h, index, results)"
| "calculateVictimsByNode_pass2 p snap h nodeCurrentAvailable index results (victim # rest) =
     (case mapLookup (queueByAlloc p) (allocationKey victim) of
        None \<Rightarrow> calculateVictimsByNode_pass2 p snap h nodeCurrentAvailable index results rest
      | Some qv \<Rightarrow>
          if length h \<le> qv then None
          else (case map_of snap (QueuePath (h ! qv)) of
                  None \<Rightarrow> calculateVictimsByNode_pass2 p snap h nodeCurrentAvailable index results rest
                | Some queueSnapshot \<Rightarrow> do {
                    oldRemaining \<leftarrow> GetRemainingGuaranteedResource h (Some queueSnapshot);
                    h1 \<leftarrow> RemoveAllocation h (Some queueSnapshot) (allocatedResource victim);
                    preemptableResource \<leftarrow> GetPreemptableResource h1 (Some queueSnapshot);
                    if victimAccepted preemptableResource oldRemaining then
                      let nodeCurrentAvailable1 = Add nodeCurrentAvailable (allocatedResource victim);
                          index1 = (if FitIn nodeCurrentAvailable1 (allocatedResource (ask p)) \<and> index < 0
                                    then int (length results) else index)
                      in calculateVictimsByNode_pass2 p snap h1 nodeCurrentAvailable1 index1
                           (results @ [victim]) rest
                    else do {
                      h2 \<leftarrow> AddAllocation h1 (Some queueSnapshot) (allocatedResource victim);
                      calculateVictimsByNode_pass2 p snap h2 nodeCurrentAvailable index results rest
                    }
                  }))"

text \<open>\<^verbatim>\<open>calculateVictimsByNode\<close> returns the index and the victim list, which may be nil.\<close>

definition calculateVictimsByNode ::
  "heap \<Rightarrow> Preemptor \<Rightarrow> Resource \<Rightarrow> Allocation list \<Rightarrow> (heap \<times> int \<times> Allocation list option) option" where
  "calculateVictimsByNode h p nodeAvailable potentialVictims =
     (if FitIn nodeAvailable (allocatedResource (ask p)) then Some (h, - 1, Some [])
      else do {
        (h1, allocationsByQueueSnap) \<leftarrow> duplicateQueueSnapshots h p;
        (case map_of allocationsByQueueSnap (queuePath p) of
           None \<Rightarrow> Some (h1, - 1, None)
         | Some askQueue \<Rightarrow> do {
             (h2, head, tail) \<leftarrow>
               calculateVictimsByNode_pass1 p allocationsByQueueSnap askQueue h1 nodeAvailable [] []
                 potentialVictims;
             if length (head @ tail) = 0 then Some (h2, - 1, None)
             else do {
               (h3, allocationsByQueueSnap2) \<leftarrow> duplicateQueueSnapshots h2 p;
               (case map_of allocationsByQueueSnap2 (queuePath p) of
                  None \<Rightarrow> Some (h3, - 1, None)
                | Some _ \<Rightarrow> do {
                    (h4, index, results) \<leftarrow>
                      calculateVictimsByNode_pass2 p allocationsByQueueSnap2 h3 nodeAvailable (- 1) []
                        (head @ tail);
                    if index < 0 then Some (h4, - 1, None) else Some (h4, index, Some results)
                  })
             }
           })
      })"

text \<open>The invariant of the second pass: while \<^verbatim>\<open>index\<close> is negative no prefix of the
  results makes the ask fit on the node; afterwards \<^verbatim>\<open>index\<close> is the position of the first
  result with which it fits.\<close>

definition indexInv :: "Resource \<Rightarrow> Resource \<Rightarrow> int \<Rightarrow> Allocation list \<Rightarrow> bool" where
  "indexInv nodeAvailable askRes index results =
     ((index < 0 \<longrightarrow> (\<forall>n. n \<le> length results \<longrightarrow> \<not> FitIn (sumAvailable nodeAvailable (take n results)) askRes)) \<and>
      (0 \<le> index \<longrightarrow> nat index < length results \<and>
         FitIn (sumAvailable nodeAvailable (take (nat index + 1) results)) askRes \<and>
         (\<forall>n. n \<le> nat index \<longrightarrow> \<not> FitIn (sumAvailable nodeAvailable (take n results)) askRes)))"

section \<open>The predicate coordinator\<close>

definition predicateChecksLess :: "PreemptionPredicatesArgs \<Rightarrow> PreemptionPredicatesArgs \<Rightarrow> bool" where
  "predicateChecksLess ci cj =
     (if args_StartIndex ci = args_StartIndex cj then stringLess (args_NodeID ci) (args_NodeID cj)
      else args_StartIndex ci < args_StartIndex cj)"

text \<open>Modelled from the spec: \<^verbatim>\<open>predicateCheckResult.populateVictims\<close>, ``populate the
  \<^verbatim>\<open>victims\<close> field of the winning result from \<^verbatim>\<open>victimsByNode[result.nodeID]\<close>, slicing at
  the index''; with index 0 the result holds the first victim (scenario S2), with index -1
  none.\<close>
definition populateVictims ::
  "(string \<times> Allocation list) list \<Rightarrow> predicateCheckResult \<Rightarrow> predicateCheckResult" where
  "populateVictims victimsByNode r =
     (if \<not> pcr_success r then r\<lparr>pcr_victims := None\<rparr>
      else (case map_of victimsByNode (pcr_nodeID r) of
              None \<Rightarrow> r\<lparr>pcr_victims := None\<rparr>
            | Some victimList \<Rightarrow> r\<lparr>pcr_victims := Some (take (nat (pcr_index r + 1)) victimList)\<rparr>))"

definition checkPreemptionPredicates ::
  "Collaborators \<Rightarrow> PreemptionPredicatesArgs list \<Rightarrow> (string \<times> Allocation list) list
   \<Rightarrow> predicateCheckResult option" where
  "checkPreemptionPredicates c predicateChecks victimsByNode =
     (case SliceStable predicateChecksLess predicateChecks of
        [] \<Rightarrow> None
      | check # others \<Rightarrow>
          (case plugin c of
             None \<Rightarrow>
               Some (populateVictims victimsByNode
                       \<lparr>pcr_allocationKey = args_AllocationKey check,
                        pcr_nodeID = args_NodeID check,
                        pcr_success = True,
                        pcr_index = args_StartIndex check,
                        pcr_victims = None\<rparr>)
           | Some rm \<Rightarrow> map_option (populateVictims victimsByNode) (rm (check # others))))"

section \<open>The additional-victim top-up\<close>

fun calculateAdditionalVictims_remove ::
  "Preemptor \<Rightarrow> (string \<times> nat) list \<Rightarrow> heap \<Rightarrow> string list \<Rightarrow> Allocation list
   \<Rightarrow> (heap \<times> string list) option" where
  "calculateAdditionalVictims_remove p snap h seen [] = Some (h, seen)"
| "calculateAdditionalVictims_remove p snap h seen (victim # rest) =
     (case mapLookup (queueByAlloc p) (allocationKey victim) of
        None \<Rightarrow> calculateAdditionalVictims_remove p snap h seen rest
      | Some qv \<Rightarrow>
          if length h \<le> qv then None
          else (case map_of snap (QueuePath (h ! qv)) of
                  None \<Rightarrow> calculateAdditionalVictims_remove p snap h seen rest
                | Some queueSnapshot \<Rightarrow> do {
                    h1 \<leftarrow> RemoveAllocation h (Some queueSnapshot) (allocatedResource victim);
                    calculateAdditionalVictims_remove p snap h1 (allocationKey victim # seen) rest
                  }))"

fun calculateAdditionalVictims_collect ::
  "heap \<Rightarrow> string list \<Rightarrow> (string \<times> nat) list \<Rightarrow> Allocation list option" where
  "calculateAdditionalVictims_collect h seen [] = Some []"
| "calculateAdditionalVictims_collect h seen ((path, alloc) # rest) =
     (if length h \<le> alloc then None
      else do {
        more \<leftarrow> calculateAdditionalVictims_collect h seen rest;
        Some (filter (\<lambda>victim. allocationKey victim \<notin> set seen) (PotentialVictims (h ! alloc)) @ more)
      })"

fun calculateAdditionalVictims_loop ::
  "Preemptor \<Rightarrow> (string \<times> nat) list \<Rightarrow> nat \<Rightarrow> heap \<Rightarrow> Allocation list \<Rightarrow> Allocation list
   \<Rightarrow> (heap \<times> Allocation list) option" where
  "calculateAdditionalVictims_loop p snap askQueue h victims [] = Some (h, victims)"
| "calculateAdditionalVictims_loop p snap askQueue h victims (victim # rest) =
     (case mapLookup (queueByAlloc p) (allocationKey victim) of
        None \<Rightarrow> calculateAdditionalVictims_loop p snap askQueue h victims rest
      | Some qv \<Rightarrow>
          if length h \<le> qv then None
          else (case map_of snap (QueuePath (h ! qv)) of
                  None \<Rightarrow> calculateAdditionalVictims_loop p snap askQueue h victims rest
                | Some queueSnapshot \<Rightarrow> do {
                    oldRemaining \<leftarrow> GetRemainingGuaranteedResource h (Some queueSnapshot);
                    h1 \<leftarrow> RemoveAllocation h (Some queueSnapshot) (allocatedResource victim);
                    preemptableResource \<leftarrow> GetPreemptableResource h1 (Some queueSnapshot);
                    if victimAccepted preemptableResource oldRemaining then do {
                      askQueueRemainingAfterVictimRemoval \<leftarrow>
                        GetRemainingGuaranteedResource h1 (Some askQueue);
                      h2 \<leftarrow> AddAllocation h1 (Some askQueue) (allocatedResource victim);
                      askQueueNewRemaining \<leftarrow> GetRemainingGuaranteedResource h2 (Some askQueue);
                      if remainingNegative askQueueNewRemaining then do {
                        h3 \<leftarrow> RemoveAllocation h2 (Some askQueue) (allocatedResource victim);
                        h4 \<leftarrow> AddAllocation h3 (Some queueSnapshot) (allocatedResource victim);
                        Some (h4, victims)
                      }
                      else if \<not> EqualsOrEmpty (nilAsZero askQueueRemainingAfterVictimRemoval)
                                   (nilAsZero askQueueNewRemaining)
                      then calculateAdditionalVictims_loop p snap askQueue h2 (victims @ [victim]) rest
                      else do {
                        h3 \<leftarrow> RemoveAllocation h2 (Some askQueue) (allocatedResource victim);
                        h4 \<leftarrow> AddAllocation h3 (Some queueSnapshot) (allocatedResource victim);
                        calculateAdditionalVictims_loop p snap askQueue h4 victims rest
                      }
                    }
                    else do {
                      h2 \<leftarrow> AddAllocation h1 (Some queueSnapshot) (allocatedResource victim);
                      calculateAdditionalVictims_loop p snap askQueue h2 victims rest
                    }
                  }))"

definition calculateAdditionalVictims ::
  "heap \<Rightarrow> Preemptor \<Rightarrow> Allocation list \<Rightarrow> (heap \<times> Allocation list option \<times> bool) option" where
  "calculateAdditionalVictims h p nodeVictims =
     do {
       (h1, allocationsByQueueSnap) \<leftarrow> duplicateQueueSnapshots h p;
       (case map_of allocationsByQueueSnap (queuePath p) of
          None \<Rightarrow> Some (h1, None, False)
        | Some askQueue \<Rightarrow> do {
            (h2, seen) \<leftarrow> calculateAdditionalVictims_remove p allocationsByQueueSnap h1 [] nodeVictims;
            collected \<leftarrow> calculateAdditionalVictims_collect h2 seen (mapEntries (allocationsByQueue p));
            (h3, victims) \<leftarrow>
              calculateAdditionalVictims_loop p allocationsByQueueSnap askQueue h2 []
                (SliceStable compareAllocationLess collected);
            finalRemainingRes \<leftarrow> GetRemainingGuaranteedResource h3 (Some askQueue);
            if remainingCovers finalRemainingRes then Some (h3, Some victims, True)
            else Some (h3, None, False)
          })
     }"

section \<open>The orchestrator\<close>

fun tryNodes_loop ::
  "Preemptor \<Rightarrow> heap \<Rightarrow> PreemptionPredicatesArgs list \<Rightarrow> (string \<times> Allocation list) list
   \<Rightarrow> (string \<times> Resource) list
   \<Rightarrow> (heap \<times> PreemptionPredicatesArgs list \<times> (string \<times> Allocation list) list) option" where
  "tryNodes_loop p h predicateChecks victimsByNode [] = Some (h, predicateChecks, victimsByNode)"
| "tryNodes_loop p h predicateChecks victimsByNode ((nid, nodeAvailable) # rest) =
     (let allocations = (case mapLookup (allocationsByNode p) nid of None \<Rightarrow> [] | Some xs \<Rightarrow> xs)
      in do {
        (h1, idx, victims) \<leftarrow> calculateVictimsByNode h p nodeAvailable allocations;
        (case victims of
           None \<Rightarrow> tryNodes_loop p h1 predicateChecks victimsByNode rest
         | Some vs \<Rightarrow>
             let victimsByNode1 = AList.update nid vs victimsByNode;
                 keys = map allocationKey vs
             in if 0 < length vs \<or> \<not> nodesTried p
                then tryNodes_loop p h1
                       (predicateChecks @
                          [\<lparr>args_AllocationKey = allocationKey (ask p),
                            args_NodeID = nid,
                            args_PreemptAllocationKeys = keys,
                            args_StartIndex = idx\<rparr>])
                       victimsByNode1 rest
                else tryNodes_loop p h1 predicateChecks victimsByNode1 rest)
      })"

definition tryNodes ::
  "Collaborators \<Rightarrow> heap \<Rightarrow> Preemptor \<Rightarrow> (heap \<times> string \<times> Allocation list option \<times> bool) option" where
  "tryNodes c h p =
     do {
       (h1, predicateChecks, victimsByNode) \<leftarrow> tryNodes_loop p h [] [] (mapEntries (nodeAvailableMap p));
       (case checkPreemptionPredicates c predicateChecks victimsByNode of
          None \<Rightarrow> Some (h1, [], None, False)
        | Some result \<Rightarrow>
            if pcr_success result then Some (h1, pcr_nodeID result, pcr_victims result, True)
            else Some (h1, [], None, False))
     }"

text \<open>The filter of \<^verbatim>\<open>TryPreemption\<close> over the merged victim list; the loop state is
  \<^verbatim>\<open>victimsTotalResource\<close> and \<^verbatim>\<open>finalVictims\<close>.\<close>

fun TryPreemption_filter ::
  "Resource \<Rightarrow> bool \<Rightarrow> string \<Rightarrow> Resource \<Rightarrow> Allocation list \<Rightarrow> Allocation list
   \<Rightarrow> Resource \<times> Allocation list" where
  "TryPreemption_filter askRes fitIn nid victimsTotalResource finalVictims [] =
     (victimsTotalResource, finalVictims)"
| "TryPreemption_filter askRes fitIn nid victimsTotalResource finalVictims (victim # rest) =
     (if \<not> fitIn \<and> nodeID victim \<noteq> nid
      then TryPreemption_filter askRes fitIn nid victimsTotalResource finalVictims rest
      else TryPreemption_filter askRes fitIn nid
             (Add victimsTotalResource (allocatedResource victim))
             (if StrictlyGreaterThanOnlyExisting askRes victimsTotalResource
              then finalVictims @ [victim] else finalVictims)
             rest)"

text \<open>
  What \<^verbatim>\<open>TryPreemption\<close> does to the world outside the preemptor: the failure code it logs
  on the ask, the increments of \<^verbatim>\<open>preemptingResource\<close> by queue, the victims it marks
  preempted, and the victims it asks the resource manager to release.
\<close>

record Effects =
  loggedFailure :: "string option"
  incPreempting :: "(string \<times> Resource) list"
  markedPreempted :: "Allocation list"
  released :: "Allocation list option"

definition noEffects :: Effects where
  "noEffects = \<lparr>loggedFailure = None, incPreempting = [], markedPreempted = [], released = None\<rparr>"

fun TryPreemption_commit :: "Collaborators \<Rightarrow> Effects \<Rightarrow> Allocation list \<Rightarrow> Effects" where
  "TryPreemption_commit c e [] = e"
| "TryPreemption_commit c e (victim # rest) =
     (case FindQueueByAppID c (applicationID victim) of
        Some victimQueue \<Rightarrow>
          TryPreemption_commit c
            (e\<lparr>incPreempting := incPreempting e @ [(victimQueue, allocatedResource victim)],
               markedPreempted := markedPreempted e @ [victim]\<rparr>) rest
      | None \<Rightarrow> TryPreemption_commit c e rest)"

text \<open>The result of \<^verbatim>\<open>newReservedAllocationResult(nodeID, ask)\<close>.\<close>
record AllocationResult =
  result_nodeID :: string
  result_ask :: Allocation

definition TryPreemption ::
  "Collaborators \<Rightarrow> heap \<Rightarrow> Preemptor
   \<Rightarrow> (heap \<times> Preemptor \<times> Effects \<times> AllocationResult option \<times> bool) option" where
  "TryPreemption c h p =
     do {
       (h1, p1, feasible) \<leftarrow> checkPreemptionQueueGuarantees c h p;
       if \<not> feasible
       then Some (h1, p1, noEffects\<lparr>loggedFailure := Some ''PreemptionDoesNotGuarantee''\<rparr>, None, False)
       else do {
         p2 \<leftarrow> initWorkingState c h1 p1;
         (h2, nid, victims, ok) \<leftarrow> tryNodes c h1 p2;
         if \<not> ok then Some (h2, p2, noEffects, None, False)
         else do {
           (h3, extraVictims, ok2) \<leftarrow> calculateAdditionalVictims h2 p2 (sliceOf victims);
           if \<not> ok2 then Some (h3, p2, noEffects, None, False)
           else
             let victims1 = sliceOf victims @ sliceOf extraVictims
             in if length victims1 = 0 then Some (h3, p2, noEffects, None, False)
                else
                  let fitIn = FitIn (nilAsZero (mapLookup (nodeAvailableMap p2) nid))
                                (allocatedResource (ask p2))
                  in (case TryPreemption_filter (allocatedResource (ask p2)) fitIn nid Zero [] victims1 of
                        (victimsTotalResource, finalVictims) \<Rightarrow>
                          if StrictlyGreaterThanOnlyExisting (allocatedResource (ask p2))
                               victimsTotalResource
                          then Some (h3, p2,
                                     noEffects\<lparr>loggedFailure := Some ''PreemptionShortfall''\<rparr>,
                                     None, False)
                          else
                            let e = TryPreemption_commit c noEffects finalVictims;
                                p3 = p2\<lparr>ask := (ask p2)\<lparr>hasTriggeredPreemption := True\<rparr>\<rparr>
                            in Some (h3, p3, e\<lparr>released := Some finalVictims\<rparr>,
                                     Some \<lparr>result_nodeID = nid, result_ask = ask p3\<rparr>, True))
         }
       }
     }"


section \<open>Duplicated snapshots and their mutation\<close>

text \<open>Invariants of duplication, for the snapshots from address \<open>n\<close> on: their parents are
  earlier snapshots of that range, and the map holds snapshots of that range under their
  own paths.\<close>

definition parentsInside :: "nat \<Rightarrow> heap \<Rightarrow> bool" where
  "parentsInside n h =
     (\<forall>i. n \<le> i \<and> i < length h \<longrightarrow> (\<forall>q. Parent (h ! i) = Some q \<longrightarrow> n \<le> q \<and> q < i))"

definition cacheInside :: "nat \<Rightarrow> heap \<Rightarrow> (string \<times> nat) list \<Rightarrow> bool" where
  "cacheInside n h copy =
     (\<forall>(k, r) \<in> set copy. n \<le> r \<and> r < length h \<and> QueuePath (h ! r) = k)"

text \<open>A property of the path, the guarantee and the ask queue pointer holds of every
  snapshot; every parent pointer points into the heap, and the paths of a snapshot and its
  parent are related by \<open>E\<close>.\<close>

definition allCells :: "(string \<Rightarrow> Resource \<Rightarrow> nat option \<Rightarrow> bool) \<Rightarrow> heap \<Rightarrow> bool" where
  "allCells Q h = (\<forall>i<length h. Q (QueuePath (h ! i)) (GuaranteedResource (h ! i)) (AskQueue (h ! i)))"

definition edgesIn :: "(string \<times> string) set \<Rightarrow> heap \<Rightarrow> bool" where
  "edgesIn E h =
     (\<forall>i<length h. \<forall>q. Parent (h ! i) = Some q \<longrightarrow>
        q < length h \<and> (QueuePath (h ! i), QueuePath (h ! q)) \<in> E)"

text \<open>What a call of \<^verbatim>\<open>Duplicate\<close> establishes: it only appends to the heap and keeps the
  invariants; and the snapshot it returns for a snapshot \<open>a\<close> is a new one with the path of
  \<open>a\<close>.\<close>

definition dupPost ::
  "nat \<Rightarrow> (string \<Rightarrow> Resource \<Rightarrow> nat option \<Rightarrow> bool) \<Rightarrow> (string \<times> string) set
   \<Rightarrow> heap \<Rightarrow> heap \<Rightarrow> (string \<times> nat) list \<Rightarrow> bool" where
  "dupPost n Q E h h' copy' =
     (take (length h) h' = h \<and> length h \<le> length h' \<and> parentsInside n h' \<and> cacheInside n h' copy' \<and>
      (allCells Q h \<longrightarrow> allCells Q h') \<and> (edgesIn E h \<longrightarrow> edgesIn E h'))"

definition dupHandle :: "nat \<Rightarrow> heap \<Rightarrow> nat option \<Rightarrow> heap \<Rightarrow> nat option \<Rightarrow> bool" where
  "dupHandle n h qps h' r =
     (case qps of
        None \<Rightarrow> r = None
      | Some a \<Rightarrow> a < length h \<and>
          (\<exists>x. r = Some x \<and> n \<le> x \<and> x < length h' \<and> QueuePath (h' ! x) = QueuePath (h ! a)))"

text \<open>A sequence of \<^verbatim>\<open>AddAllocation\<close> and \<^verbatim>\<open>RemoveAllocation\<close> calls on snapshots.\<close>

datatype mutation = AddAlloc nat Resource | RemoveAlloc nat Resource

fun target :: "mutation \<Rightarrow> nat" where
  "target (AddAlloc a r) = a"
| "target (RemoveAlloc a r) = a"

fun mutate :: "heap \<Rightarrow> mutation list \<Rightarrow> heap option" where
  "mutate h [] = Some h"
| "mutate h (AddAlloc a r # ms) = do { h1 \<leftarrow> AddAllocation h (Some a) r; mutate h1 ms }"
| "mutate h (RemoveAlloc a r # ms) = do { h1 \<leftarrow> RemoveAllocation h (Some a) r; mutate h1 ms }"

text \<open>Two heaps hold the same snapshots but for their allocated resources.\<close>

definition staticEq :: "heap \<Rightarrow> heap \<Rightarrow> bool" where
  "staticEq g g' =
     (length g' = length g \<and>
      (\<forall>i<length g. g' ! i = (g ! i)\<lparr>AllocatedResource := AllocatedResource (g' ! i)\<rparr>))"

text \<open>The queue paths in \<open>A\<close> form a hierarchy without guarantee: a snapshot with a path
  in \<open>A\<close> has an empty guaranteed resource, and its parent, a snapshot of the heap, has a
  path in \<open>A\<close> again.\<close>

definition hierarchyWithoutGuarantee :: "string set \<Rightarrow> heap \<Rightarrow> bool" where
  "hierarchyWithoutGuarantee A h =
     (allCells (\<lambda>path guaranteed askQueue. path \<in> A \<longrightarrow> IsEmpty guaranteed) h \<and>
      edgesIn {(child, parent). child \<in> A \<longrightarrow> parent \<in> A} h)"

section \<open>Scenarios\<close>

text \<open>Concrete inputs, after the scenarios of section 8 of the specification. Their
  quantities are of the one resource \<open>cpu\<close>.\<close>

definition cpu :: "int \<Rightarrow> Resource" where
  "cpu n = Mapping.update ''cpu'' n Mapping.empty"

definition exAllocation :: "string \<Rightarrow> string \<Rightarrow> string \<Rightarrow> int \<Rightarrow> Allocation" where
  "exAllocation key app node n =
     \<lparr>allocationKey = key, applicationID = app, nodeID = node, allocatedResource = cpu n,
      createTime = 0, isOriginator = False, allowPreemptSelf = True, allowPreemptOther = True,
      requiredNode = [], hasTriggeredPreemption = False, preemptCheckTime = 0\<rparr>"

definition exQueue ::
  "nat option \<Rightarrow> string \<Rightarrow> Resource \<Rightarrow> Resource \<Rightarrow> Allocation list \<Rightarrow> QueuePreemptionSnapshot" where
  "exQueue par path allocated guaranteed victims =
     \<lparr>Parent = par, QueuePath = path, Leaf = (par \<noteq> None), AllocatedResource = allocated,
      PreemptingResource = Zero, MaxResource = Zero, GuaranteedResource = guaranteed,
      PotentialVictims = victims, AskQueue = Some 1\<rparr>"

definition exNode :: "string \<Rightarrow> int \<Rightarrow> Node" where
  "exNode n available =
     \<lparr>NodeID = n, schedulable = True, reservations = [], totalResource = cpu 10,
      availableResource = cpu available\<rparr>"

definition exPreemptor :: "Allocation \<Rightarrow> Preemptor" where
  "exPreemptor a =
     \<lparr>queuePath = ''root.a'', preemptionDelay = 0, ask = a, nodesTried = False,
      allocationsByQueue = None, queueByAlloc = None, allocationsByNode = None,
      nodeAvailableMap = None\<rparr>"

text \<open>Scenario S1: root and \<open>root.a\<close> with guarantee 10 and nothing allocated, an ask of 4,
  node N1 with 8 available, no victims.\<close>

definition S1_heap :: heap where
  "S1_heap = [exQueue None ''root'' (cpu 0) (cpu 10) [],
              exQueue (Some 0) ''root.a'' (cpu 0) (cpu 10) []]"

definition S1_collaborators :: Collaborators where
  "S1_collaborators =
     \<lparr>FindEligiblePreemptionVictims = Some [(''root'', 0), (''root.a'', 1)],
      nodes = [exNode ''N1'' 8],
      FindQueueByAppID = (\<lambda>app. None),
      plugin = None\<rparr>"

definition S1_preemptor :: Preemptor where
  "S1_preemptor = exPreemptor (exAllocation ''ask'' ''app-a'' [] 4)"

text \<open>Scenario S2: \<open>root.a\<close> with guarantee 5 and nothing allocated, \<open>root.b\<close> with
  guarantee 5 and the allocations V1 of 3 on node N1 and V2 of 4 on node N2, an ask of 3 for
  \<open>root.a\<close>, both nodes full.\<close>

definition V1 :: Allocation where
  "V1 = exAllocation ''v1'' ''app-b'' ''N1'' 3"

definition V2 :: Allocation where
  "V2 = exAllocation ''v2'' ''app-b'' ''N2'' 4"

definition S2_heap :: heap where
  "S2_heap = [exQueue None ''root'' (cpu 7) (cpu 10) [],
              exQueue (Some 0) ''root.a'' (cpu 0) (cpu 5) [],
              exQueue (Some 0) ''root.b'' (cpu 7) (cpu 5) [V1, V2]]"

definition S2_collaborators :: Collaborators where
  "S2_collaborators =
     \<lparr>FindEligiblePreemptionVictims = Some [(''root'', 0), (''root.a'', 1), (''root.b'', 2)],
      nodes = [exNode ''N1'' 0, exNode ''N2'' 0],
      FindQueueByAppID = (\<lambda>app. if app = ''app-b'' then Some ''root.b'' else None),
      plugin = None\<rparr>"

definition S2_preemptor :: Preemptor where
  "S2_preemptor = exPreemptor (exAllocation ''ask'' ''app-a'' [] 3)"



text \<open>The preemptor of scenario S2 with its working state built, and the same scenario for
  an ask that has triggered preemption before.\<close>

definition S2_working :: Preemptor where
  "S2_working =
     (case initWorkingState S2_collaborators S2_heap S2_preemptor of
        Some p \<Rightarrow> p
      | None \<Rightarrow> S2_preemptor)"

definition S2_triggered :: Preemptor where
  "S2_triggered = exPreemptor ((exAllocation ''ask'' ''app-a'' [] 3)\<lparr>hasTriggeredPreemption := True\<rparr>)"

text \<open>Scenario S2 with the guarantees of \<open>root\<close> and \<open>root.a\<close> taken away; the preemptor
  of scenario S2 with its queue snapshots taken, and the heap after their duplication.\<close>

definition noGuarantee_heap :: heap where
  "noGuarantee_heap = [exQueue None ''root'' (cpu 7) Zero [],
                       exQueue (Some 0) ''root.a'' (cpu 0) Zero [],
                       exQueue (Some 0) ''root.b'' (cpu 7) (cpu 5) [V1, V2]]"

definition S2_snapshotted :: Preemptor where
  "S2_snapshotted =
     S2_preemptor\<lparr>allocationsByQueue := Some [(''root'', 0), (''root.a'', 1), (''root.b'', 2)]\<rparr>"

definition S2_duplicated :: heap where
  "S2_duplicated = S2_heap @ [exQueue None ''root'' (cpu 7) (cpu 10) [],
                              exQueue (Some 3) ''root.a'' (cpu 0) (cpu 5) [],
                              exQueue (Some 3) ''root.b'' (cpu 7) (cpu 5) [V1, V2]]"

text \<open>A scenario with the two resources \<open>cpu\<close> and \<open>memory\<close>: \<open>root.a\<close> with a guarantee of
  10 of each and nothing allocated; \<open>root.b\<close> with a guarantee of 1 of each and 7 cpu and
  4 memory allocated, of which the allocations W1 (5 cpu, 1 memory) and W2 (1 cpu, 2 memory)
  are potential victims, both on node N1, which has nothing available; an ask of 3 cpu and
  3 memory for \<open>root.a\<close>.\<close>

definition cpuMem :: "int \<Rightarrow> int \<Rightarrow> Resource" where
  "cpuMem c m = Mapping.update ''cpu'' c (Mapping.update ''memory'' m Mapping.empty)"

definition W1 :: Allocation where
  "W1 = (exAllocation ''w1'' ''app-b'' ''N1'' 0)\<lparr>allocatedResource := cpuMem 5 1\<rparr>"

definition W2 :: Allocation where
  "W2 = (exAllocation ''w2'' ''app-b'' ''N1'' 0)\<lparr>allocatedResource := cpuMem 1 2\<rparr>"

definition shortfall_heap :: heap where
  "shortfall_heap = [exQueue None ''root'' (cpuMem 7 4) (cpuMem 20 20) [],
                     exQueue (Some 0) ''root.a'' (cpuMem 0 0) (cpuMem 10 10) [],
                     exQueue (Some 0) ''root.b'' (cpuMem 7 4) (cpuMem 1 1) [W1, W2]]"

definition shortfall_collaborators :: Collaborators where
  "shortfall_collaborators =
     \<lparr>FindEligiblePreemptionVictims = Some [(''root'', 0), (''root.a'', 1), (''root.b'', 2)],
      nodes = [(exNode ''N1'' 0)\<lparr>totalResource := cpuMem 10 10, availableResource := cpuMem 0 0\<rparr>],
      FindQueueByAppID = (\<lambda>app. if app = ''app-b'' then Some ''root.b'' else None),
      plugin = None\<rparr>"

definition shortfall_preemptor :: Preemptor where
  "shortfall_preemptor =
     exPreemptor ((exAllocation ''ask'' ''app-a'' [] 0)\<lparr>allocatedResource := cpuMem 3 3\<rparr>)"

definition shortfall_working :: Preemptor where
  "shortfall_working =
     (case initWorkingState shortfall_collaborators shortfall_heap shortfall_preemptor of
        Some p \<Rightarrow> p
      | None \<Rightarrow> shortfall_preemptor)"

section \<open>Properties of resource vectors\<close>

lemma lookup_Add:
  "Mapping.lookup (Add l r) k = combine_options (+) (Mapping.lookup l k) (Mapping.lookup r k)"
  by (simp add: Add_def lookup_combine)

lemma lookup_Sub:
  "Mapping.lookup (Sub l r) k =
     combine_options (+) (Mapping.lookup l k) (map_option uminus (Mapping.lookup r k))"
  by (simp add: Sub_def lookup_combine lookup_map_values)

lemma Quantity_lookup:
  "Quantity r k = (case Mapping.lookup r k of None \<Rightarrow> 0 | Some v \<Rightarrow> v)"
  by (simp add: Quantity_def lookup_default_def)

lemma Quantity_Add: "Quantity (Add l r) k = Quantity l k + Quantity r k"
  by (simp add: Quantity_lookup lookup_Add split: option.splits)

lemma Quantity_Sub: "Quantity (Sub l r) k = Quantity l k - Quantity r k"
  by (simp add: Quantity_lookup lookup_Sub split: option.splits)

lemma keys_Add: "Mapping.keys (Add l r) = Mapping.keys l \<union> Mapping.keys r"
  by (simp add: Add_def)

lemma keys_Sub: "Mapping.keys (Sub l r) = Mapping.keys l \<union> Mapping.keys r"
  by (simp add: Sub_def)

lemma Quantity_Zero: "Quantity Zero k = 0"
  by (simp add: Quantity_lookup Zero_def)

lemma Sub_Add_same:
  assumes "Mapping.keys r \<subseteq> Mapping.keys x"
  shows "Sub (Add x r) r = x"
proof (rule mapping_eqI)
  fix k
  show "Mapping.lookup (Sub (Add x r) r) k = Mapping.lookup x k"
  proof (cases "Mapping.lookup r k")
    case None
    then show ?thesis by (cases "Mapping.lookup x k") (simp_all add: lookup_Sub lookup_Add)
  next
    case (Some v)
    then have "k \<in> Mapping.keys r" by (simp add: keys_dom_lookup domI)
    with assms have "k \<in> Mapping.keys x" by blast
    then obtain w where "Mapping.lookup x k = Some w" by (auto simp: keys_dom_lookup)
    with Some show ?thesis by (simp add: lookup_Sub lookup_Add)
  qed
qed

lemma lookup_CWMOE: "Mapping.lookup (ComponentWiseMinOnlyExisting l r) k = 
   (case Mapping.lookup l k of None \<Rightarrow> None | Some v \<Rightarrow> Some (case Mapping.lookup r k of None \<Rightarrow> v | Some w \<Rightarrow> min v w))"
  by (simp add: ComponentWiseMinOnlyExisting_def lookup_map_values split: option.splits)

lemma positive_filter: "positive (Mapping.filter (\<lambda>k v. \<not> v \<le> 0) m)"
  by (auto simp: positive_def lookup_filter split: option.splits if_splits)

lemma positive_CWMOE: "positive l \<Longrightarrow> positive r \<Longrightarrow> positive (ComponentWiseMinOnlyExisting l r)"
  by (auto simp: positive_def lookup_CWMOE split: option.splits)

lemma positive_Zero: "positive Zero"
  by (simp add: positive_def Zero_def)


lemma IsEmpty_Zero: "IsEmpty Zero"
  by (simp add: IsEmpty_def Zero_def)


section \<open>Properties of the snapshot methods\<close>

lemma chain_in_heap: "chain h q as \<Longrightarrow> i \<in> set as \<Longrightarrow> i < length h"
  by (induction rule: chain.induct) auto

lemma chain_det: "chain h q as \<Longrightarrow> chain h q bs \<Longrightarrow> as = bs"
proof (induction arbitrary: bs rule: chain.induct)
  case (chain_nil h)
  then show ?case by (auto elim: chain.cases)
next
  case (chain_cons a h as)
  from chain_cons.prems obtain bs' where "bs = a # bs'" "chain h (Parent (h ! a)) bs'"
    by (auto elim: chain.cases)
  with chain_cons.IH show ?case by simp
qed

lemma chain_suffix:
  "chain h q as \<Longrightarrow> x \<in> set as \<Longrightarrow> \<exists>xs. chain h (Some x) (x # xs) \<and> length (x # xs) \<le> length as"
proof (induction rule: chain.induct)
  case (chain_nil h)
  then show ?case by simp
next
  case (chain_cons a h as)
  show ?case
  proof (cases "x = a")
    case True
    with chain_cons.hyps show ?thesis by (auto intro: chain.chain_cons)
  next
    case False
    with chain_cons.prems have "x \<in> set as" by simp
    with chain_cons.IH obtain xs where "chain h (Some x) (x # xs)" "length (x # xs) \<le> length as"
      by blast
    then show ?thesis by (intro exI[of _ xs]) simp
  qed
qed

lemma chain_head_fresh:
  assumes "chain h (Some a) (a # as)"
  shows "a \<notin> set as"
proof
  assume "a \<in> set as"
  from assms have c: "chain h (Parent (h ! a)) as" by (auto elim: chain.cases)
  from chain_suffix[OF c \<open>a \<in> set as\<close>] obtain xs where
    xs: "chain h (Some a) (a # xs)" "length (a # xs) \<le> length as" by blast
  from chain_det[OF assms xs(1)] xs(2) show False by simp
qed

lemma chain_cong:
  "chain h q as \<Longrightarrow> length h' = length h \<Longrightarrow> (\<forall>i<length h. Parent (h' ! i) = Parent (h ! i))
   \<Longrightarrow> chain h' q as"
proof (induction rule: chain.induct)
  case (chain_nil h)
  then show ?case by (simp add: chain.chain_nil)
next
  case (chain_cons a h as)
  then show ?case by (auto intro!: chain.chain_cons)
qed

text \<open>On an ancestor chain, \<^verbatim>\<open>AddAllocation\<close> and \<^verbatim>\<open>RemoveAllocation\<close> return, and they
  change the allocated resources of the snapshots of the chain and nothing else.\<close>

lemma AddAllocation_chain:
  "chain h q as \<Longrightarrow>
   \<exists>h'. AddAllocation h q r = Some h' \<and> length h' = length h \<and>
        (\<forall>i<length h. h' ! i =
           (if i \<in> set as then (h ! i)\<lparr>AllocatedResource := Add (AllocatedResource (h ! i)) r\<rparr>
            else h ! i))"
proof (induction rule: chain.induct)
  case (chain_nil h)
  show ?case by (simp add: AddAllocation.simps[of h None])
next
  case (chain_cons a h as)
  then obtain h1 where h1: "AddAllocation h (Parent (h ! a)) r = Some h1" "length h1 = length h"
    "\<forall>i<length h. h1 ! i =
       (if i \<in> set as then (h ! i)\<lparr>AllocatedResource := Add (AllocatedResource (h ! i)) r\<rparr>
        else h ! i)" by blast
  from chain_cons.hyps have "chain h (Some a) (a # as)" by (rule chain.chain_cons)
  then have fresh: "a \<notin> set as" by (rule chain_head_fresh)
  let ?h' = "h1[a := (h1 ! a)\<lparr>AllocatedResource := Add (AllocatedResource (h1 ! a)) r\<rparr>]"
  have "AddAllocation h (Some a) r = Some ?h'"
    using chain_cons.hyps(1) h1(1) by (subst AddAllocation.simps) simp
  moreover have "length ?h' = length h" using h1(2) by simp
  moreover have "\<forall>i<length h. ?h' ! i =
       (if i \<in> set (a # as) then (h ! i)\<lparr>AllocatedResource := Add (AllocatedResource (h ! i)) r\<rparr>
        else h ! i)"
    using h1(2,3) fresh chain_cons.hyps(1) by (auto simp: nth_list_update)
  ultimately show ?case by blast
qed

lemma RemoveAllocation_chain:
  "chain h q as \<Longrightarrow>
   \<exists>h'. RemoveAllocation h q r = Some h' \<and> length h' = length h \<and>
        (\<forall>i<length h. h' ! i =
           (if i \<in> set as then (h ! i)\<lparr>AllocatedResource := Sub (AllocatedResource (h ! i)) r\<rparr>
            else h ! i))"
proof (induction rule: chain.induct)
  case (chain_nil h)
  show ?case by (simp add: RemoveAllocation.simps[of h None])
next
  case (chain_cons a h as)
  then obtain h1 where h1: "RemoveAllocation h (Parent (h ! a)) r = Some h1" "length h1 = length h"
    "\<forall>i<length h. h1 ! i =
       (if i \<in> set as then (h ! i)\<lparr>AllocatedResource := Sub (AllocatedResource (h ! i)) r\<rparr>
        else h ! i)" by blast
  from chain_cons.hyps have "chain h (Some a) (a # as)" by (rule chain.chain_cons)
  then have fresh: "a \<notin> set as" by (rule chain_head_fresh)
  let ?h' = "h1[a := (h1 ! a)\<lparr>AllocatedResource := Sub (AllocatedResource (h1 ! a)) r\<rparr>]"
  have "RemoveAllocation h (Some a) r = Some ?h'"
    using chain_cons.hyps(1) h1(1) by (subst RemoveAllocation.simps) simp
  moreover have "length ?h' = length h" using h1(2) by simp
  moreover have "\<forall>i<length h. ?h' ! i =
       (if i \<in> set (a # as) then (h ! i)\<lparr>AllocatedResource := Sub (AllocatedResource (h ! i)) r\<rparr>
        else h ! i)"
    using h1(2,3) fresh chain_cons.hyps(1) by (auto simp: nth_list_update)
  ultimately show ?case by blast
qed


lemma GetRemainingGuaranteedResource_returns:
  "chain h q as \<Longrightarrow> (\<forall>i\<in>set as. \<forall>aq. AskQueue (h ! i) = Some aq \<longrightarrow> aq < length h)
   \<Longrightarrow> \<exists>v. GetRemainingGuaranteedResource h q = Some v"
proof (induction rule: chain.induct)
  case (chain_nil h)
  show ?case by (simp add: GetRemainingGuaranteedResource.simps[of h None])
next
  case (chain_cons a h as)
  from chain_cons.prems have "\<forall>i\<in>set as. \<forall>aq. AskQueue (h ! i) = Some aq \<longrightarrow> aq < length h"
    by simp
  with chain_cons.IH obtain v where v: "GetRemainingGuaranteedResource h (Parent (h ! a)) = Some v"
    by blast
  from chain_cons.prems have "\<forall>aq. AskQueue (h ! a) = Some aq \<longrightarrow> aq < length h"
    by simp
  with chain_cons.hyps(1) v show ?case
    by (subst GetRemainingGuaranteedResource.simps) (auto simp: Let_def split: option.splits)
qed

lemma GetPreemptableResource_returns:
  "chain h q as \<Longrightarrow> \<exists>v. GetPreemptableResource h q = Some v"
proof (induction rule: chain.induct)
  case (chain_nil h)
  show ?case by (simp add: GetPreemptableResource.simps[of h None])
next
  case (chain_cons a h as)
  then obtain v where v: "GetPreemptableResource h (Parent (h ! a)) = Some v" by blast
  show ?case using chain_cons.hyps(1) v
    by (subst GetPreemptableResource.simps) (auto simp: Let_def split: option.splits)
qed

lemma GetPreemptableResource_lookup_positive:
  assumes "GetPreemptableResource h q = Some res"
  shows "\<forall>r. res = Some r \<longrightarrow> positive r"
proof (rule GetPreemptableResource.raw_induct
    [where P = "\<lambda>h q res. \<forall>r. res = Some r \<longrightarrow> positive r" and h = h and qps = q and y = res])
  fix gpr :: "heap \<Rightarrow> nat option \<Rightarrow> Resource option option" and h :: heap and qps res
  assume IH: "\<And>h qps y. gpr h qps = Some y \<Longrightarrow> \<forall>r. y = Some r \<longrightarrow> positive r"
  assume eq: "(case qps of
        None \<Rightarrow> Some None
      | Some a \<Rightarrow>
          if length h \<le> a then None
          else if IsEmpty (AllocatedResource (h ! a)) then Some None
          else do {
            parentPreemptableResource \<leftarrow> gpr h (Parent (h ! a));
            let actual = SubOnlyExisting (AllocatedResource (h ! a)) (PreemptingResource (h ! a));
                guaranteed = GuaranteedResource (h ! a);
                actual = SubOnlyExisting actual guaranteed;
                preemptableResource = Mapping.filter (\<lambda>k v. \<not> v \<le> 0) actual
            in if IsEmpty preemptableResource then Some (Some preemptableResource)
               else Some (Some (ComponentWiseMinOnlyExisting preemptableResource
                                  (nilAsZero parentPreemptableResource)))
          }) = Some res"
  show "\<forall>r. res = Some r \<longrightarrow> positive r"
  proof (cases qps)
    case None
    with eq show ?thesis by simp
  next
    case (Some a)
    show ?thesis
    proof (intro allI impI)
      fix r assume r: "res = Some r"
      with eq Some obtain pp where pp: "gpr h (Parent (h ! a)) = Some pp"
        by (auto split: if_splits Option.bind_splits)
      have ppos: "positive (nilAsZero pp)"
        using IH[OF pp] by (cases pp) (auto simp: nilAsZero_def positive_Zero)
      from eq r Some pp show "positive r"
        by (auto simp: Let_def positive_filter intro!: positive_CWMOE ppos split: if_splits)
    qed
  qed
next
  show "GetPreemptableResource h q = Some res" by fact
qed


subsection \<open>Claim C5\<close>

text \<open>
  Claim C5. For a snapshot whose parent pointers end at a root (\<open>as\<close> is the snapshot
  followed by its ancestors) and every resource vector \<open>r\<close>: \<^verbatim>\<open>AddAllocation(r)\<close> returns, and
  it replaces the allocated resource of the snapshot and of every ancestor by its sum with
  \<open>r\<close> and changes nothing else in the heap. \<^verbatim>\<open>RemoveAllocation(r)\<close> after it returns too and
  undoes it: every snapshot has all its fields but the allocated resource as before, and its
  allocated resource has the prior quantity for each resource name. Where the names of \<open>r\<close>
  are all present in the allocated resources of the chain, the heap is the prior heap.
\<close>

theorem AddAllocation_RemoveAllocation_inverse:
  assumes "chain h qps as"
  shows "\<exists>h1 h2. AddAllocation h qps r = Some h1 \<and> RemoveAllocation h1 qps r = Some h2 \<and>
           length h1 = length h \<and> length h2 = length h \<and>
           (\<forall>i<length h. h1 ! i =
              (if i \<in> set as then (h ! i)\<lparr>AllocatedResource := Add (AllocatedResource (h ! i)) r\<rparr>
               else h ! i)) \<and>
           (\<forall>i<length h. h2 ! i = (h ! i)\<lparr>AllocatedResource := AllocatedResource (h2 ! i)\<rparr> \<and>
              (\<forall>k. Quantity (AllocatedResource (h2 ! i)) k = Quantity (AllocatedResource (h ! i)) k)) \<and>
           ((\<forall>i\<in>set as. Mapping.keys r \<subseteq> Mapping.keys (AllocatedResource (h ! i))) \<longrightarrow> h2 = h)"
proof -
  from AddAllocation_chain[OF assms, of r] obtain h1 where
    h1: "AddAllocation h qps r = Some h1" "length h1 = length h"
      "\<forall>i<length h. h1 ! i =
         (if i \<in> set as then (h ! i)\<lparr>AllocatedResource := Add (AllocatedResource (h ! i)) r\<rparr>
          else h ! i)" by blast
  have "\<forall>i<length h. Parent (h1 ! i) = Parent (h ! i)"
    using h1(3) by simp
  with assms h1(2) have "chain h1 qps as"
    by (rule chain_cong)
  from RemoveAllocation_chain[OF this, of r] obtain h2 where
    h2: "RemoveAllocation h1 qps r = Some h2" "length h2 = length h1"
      "\<forall>i<length h1. h2 ! i =
         (if i \<in> set as then (h1 ! i)\<lparr>AllocatedResource := Sub (AllocatedResource (h1 ! i)) r\<rparr>
          else h1 ! i)" by blast
  have cell: "h2 ! i =
      (if i \<in> set as
       then (h ! i)\<lparr>AllocatedResource := Sub (Add (AllocatedResource (h ! i)) r) r\<rparr>
       else h ! i)" if "i < length h" for i
    using that h1(2) h1(3) h2(3) by simp
  have frame: "\<forall>i<length h. h2 ! i = (h ! i)\<lparr>AllocatedResource := AllocatedResource (h2 ! i)\<rparr> \<and>
      (\<forall>k. Quantity (AllocatedResource (h2 ! i)) k = Quantity (AllocatedResource (h ! i)) k)"
    by (simp add: cell Quantity_Sub Quantity_Add)
  have exact: "h2 = h" if "\<forall>i\<in>set as. Mapping.keys r \<subseteq> Mapping.keys (AllocatedResource (h ! i))"
  proof (rule nth_equalityI)
    show "length h2 = length h" using h1(2) h2(2) by simp
  next
    fix i assume "i < length h2"
    then have i: "i < length h" using h1(2) h2(2) by simp
    show "h2 ! i = h ! i" using cell[OF i] that by (simp add: Sub_Add_same)
  qed
  from h1 h2(1,2) frame exact show ?thesis by auto
qed


theorem AddAllocation_RemoveAllocation_inverse_witness:
  "chain S2_heap (Some 2) [2, 0] \<and>
   (\<exists>h1 h2. AddAllocation S2_heap (Some 2) (cpu 3) = Some h1 \<and>
      AllocatedResource (h1 ! 0) = Add (AllocatedResource (S2_heap ! 0)) (cpu 3) \<and>
      h1 ! 1 = S2_heap ! 1 \<and>
      RemoveAllocation h1 (Some 2) (cpu 3) = Some h2 \<and> h2 = S2_heap)"
proof -
  have c: "chain S2_heap (Some 2) [2, 0]"
    by (auto intro!: chain.intros simp: S2_heap_def exQueue_def)
  have k: "\<forall>i\<in>set [2, 0]. Mapping.keys (cpu 3) \<subseteq> Mapping.keys (AllocatedResource (S2_heap ! i))"
    by (simp add: S2_heap_def exQueue_def cpu_def)
  have l: "length S2_heap = 3"
    by (simp add: S2_heap_def)
  from AddAllocation_RemoveAllocation_inverse[OF c, of "cpu 3"] k l c show ?thesis
    by (auto simp: numeral_3_eq_3)
qed

subsection \<open>Claim C7\<close>

text \<open>
  Claim C7. Whenever \<^verbatim>\<open>GetPreemptableResource\<close> returns a vector that is not nil, every
  component present in that vector is strictly positive.
\<close>

theorem GetPreemptableResource_positive:
  assumes "GetPreemptableResource h qps = Some (Some r)"
  shows "\<forall>k \<in> Mapping.keys r. 0 < Quantity r k"
proof
  fix k assume "k \<in> Mapping.keys r"
  then obtain v where v: "Mapping.lookup r k = Some v"
    by (auto simp: keys_dom_lookup)
  from GetPreemptableResource_lookup_positive[OF assms] have "positive r" by simp
  with v show "0 < Quantity r k"
    by (simp add: positive_def Quantity_lookup)
qed

theorem GetPreemptableResource_positive_witness:
  "GetPreemptableResource S2_heap (Some 2) = Some (Some (cpu 2)) \<and> 0 < Quantity (cpu 2) ''cpu''"
proof -
  have e: "GetPreemptableResource S2_heap (Some 2) = Some (Some (cpu 2))"
    by code_simp
  have k: "''cpu'' \<in> Mapping.keys (cpu 2)"
    by (simp add: cpu_def)
  from GetPreemptableResource_positive[OF e] k e show ?thesis by blast
qed

subsection \<open>Claim C4\<close>





subsection \<open>Claim C8\<close>

text \<open>
  Claim C8. A call of \<^verbatim>\<open>CheckPreconditions\<close> that returns true sets the check time of the
  ask to the time of the call, and a later call on the same ask, made before that time plus
  \<^verbatim>\<open>preemptAttemptFrequency\<close>, returns false: two calls within the frequency window cannot
  both return true.
\<close>

theorem CheckPreconditions_throttle:
  assumes "CheckPreconditions now1 p = (True, p1)"
    and "now2 < now1 + preemptAttemptFrequency"
  shows "preemptCheckTime (ask p1) = now1 \<and> fst (CheckPreconditions now2 p1) = False"
proof -
  from assms(1) have p1: "p1 = p\<lparr>ask := UpdatePreemptCheckTime now1 (ask p)\<rparr>"
    by (simp add: CheckPreconditions_def split: if_splits)
  then have t: "preemptCheckTime (ask p1) = now1"
    by (simp add: UpdatePreemptCheckTime_def)
  with assms(2) show ?thesis
    by (simp add: CheckPreconditions_def)
qed

theorem CheckPreconditions_throttle_witness:
  "CheckPreconditions 20000000000 S2_preemptor =
     (True, S2_preemptor\<lparr>ask := (ask S2_preemptor)\<lparr>preemptCheckTime := 20000000000\<rparr>\<rparr>) \<and>
   (30000000000 :: int) < 20000000000 + preemptAttemptFrequency \<and>
   fst (CheckPreconditions 30000000000
          (S2_preemptor\<lparr>ask := (ask S2_preemptor)\<lparr>preemptCheckTime := 20000000000\<rparr>\<rparr>)) = False"
proof -
  have a: "CheckPreconditions 20000000000 S2_preemptor =
     (True, S2_preemptor\<lparr>ask := (ask S2_preemptor)\<lparr>preemptCheckTime := 20000000000\<rparr>\<rparr>)"
    by (simp add: CheckPreconditions_def S2_preemptor_def exPreemptor_def exAllocation_def
        preemptAttemptFrequency_def UpdatePreemptCheckTime_def)
  have b: "(30000000000 :: int) < 20000000000 + preemptAttemptFrequency"
    by (simp add: preemptAttemptFrequency_def)
  from CheckPreconditions_throttle[OF a b] a b show ?thesis by simp
qed

section \<open>Properties of the per-node victim calculator\<close>

lemma sumAvailable_snoc:
  "sumAvailable a (vs @ [v]) = Add (sumAvailable a vs) (allocatedResource v)"
  by (simp add: sumAvailable_def)

lemma indexInv_step:
  assumes "indexInv nodeAvailable askRes index results"
  shows "indexInv nodeAvailable askRes
           (if FitIn (Add (sumAvailable nodeAvailable results) (allocatedResource victim)) askRes \<and> index < 0
            then int (length results) else index)
           (results @ [victim])"
proof (cases "index < 0")
  case True
  with assms have no: "\<forall>n. n \<le> length results \<longrightarrow> \<not> FitIn (sumAvailable nodeAvailable (take n results)) askRes"
    by (simp add: indexInv_def)
  show ?thesis
  proof (cases "FitIn (Add (sumAvailable nodeAvailable results) (allocatedResource victim)) askRes")
    case fit: True
    with True no show ?thesis
      by (simp add: indexInv_def sumAvailable_snoc)
  next
    case nofit: False
    have "\<not> FitIn (sumAvailable nodeAvailable (take n (results @ [victim]))) askRes"
      if "n \<le> length (results @ [victim])" for n
    proof (cases "n \<le> length results")
      case True
      with no show ?thesis by simp
    next
      case False
      with that have "n = Suc (length results)" by simp
      with nofit show ?thesis by (simp add: sumAvailable_snoc)
    qed
    with True nofit show ?thesis
      by (simp add: indexInv_def)
  qed
next
  case False
  with assms show ?thesis
    by (auto simp: indexInv_def)
qed

lemma pass2_indexInv:
  "calculateVictimsByNode_pass2 p snap h nodeCurrentAvailable index results victims = Some (h', index', results')
   \<Longrightarrow> nodeCurrentAvailable = sumAvailable nodeAvailable results
   \<Longrightarrow> indexInv nodeAvailable (allocatedResource (ask p)) index results
   \<Longrightarrow> indexInv nodeAvailable (allocatedResource (ask p)) index' results'"
proof (induction p snap h nodeCurrentAvailable index results victims rule: calculateVictimsByNode_pass2.induct)
  case (1 p snap h nodeCurrentAvailable index results)
  then show ?case by simp
next
  case (2 p snap h nodeCurrentAvailable index results victim rest)
  show ?case
  proof (cases "mapLookup (queueByAlloc p) (allocationKey victim)")
    case None
    with 2 show ?thesis by simp
  next
    case (Some qv)
    show ?thesis
    proof (cases "map_of snap (QueuePath (h ! qv))")
      case None
      with 2 Some show ?thesis by (simp split: if_splits)
    next
      case qs: (Some queueSnapshot)
      from "2.prems"(1) Some qs obtain oldRemaining h1 preemptableResource where
        qv: "\<not> length h \<le> qv"
        and o: "GetRemainingGuaranteedResource h (Some queueSnapshot) = Some oldRemaining"
        and r: "RemoveAllocation h (Some queueSnapshot) (allocatedResource victim) = Some h1"
        and g: "GetPreemptableResource h1 (Some queueSnapshot) = Some preemptableResource"
        by (auto split: if_splits Option.bind_splits)
      show ?thesis
      proof (cases "victimAccepted preemptableResource oldRemaining")
        case True
        let ?avail = "Add nodeCurrentAvailable (allocatedResource victim)"
        let ?index = "if FitIn ?avail (allocatedResource (ask p)) \<and> index < 0
                      then int (length results) else index"
        from "2.prems"(1) Some qs qv o r g True have run:
          "calculateVictimsByNode_pass2 p snap h1 ?avail ?index (results @ [victim]) rest = Some (h', index', results')"
          by (simp add: Let_def)
        have a: "?avail = sumAvailable nodeAvailable (results @ [victim])"
          using "2.prems"(2) by (simp add: sumAvailable_snoc)
        have i: "indexInv nodeAvailable (allocatedResource (ask p)) ?index (results @ [victim])"
          using indexInv_step[OF "2.prems"(3)] "2.prems"(2) by simp
        from "2.IH"(3)[OF Some qv qs o r g True refl refl run a i] show ?thesis .
      next
        case False
        from "2.prems"(1) Some qs qv o r g False obtain h2 where
          a: "AddAllocation h1 (Some queueSnapshot) (allocatedResource victim) = Some h2"
          and run: "calculateVictimsByNode_pass2 p snap h2 nodeCurrentAvailable index results rest = Some (h', index', results')"
          by (auto split: Option.bind_splits)
        from "2.IH"(4)[OF Some qv qs o r g False a run "2.prems"(2,3)] show ?thesis .
      qed
    qed
  qed
qed


subsection \<open>Claim C3\<close>

text \<open>
  Claim C3 as stated fails: in scenario S2, for node N1 with nothing available and the
  victim V1, \<^verbatim>\<open>calculateVictimsByNode\<close> returns the index 0 and the list of V1, and the ask
  does not fit on the node with the first 0 victims taken off.
\<close>

theorem calculateVictimsByNode_index_counterexample:
  "map_option snd (calculateVictimsByNode S2_heap S2_working (cpu 0) [V1]) = Some (0, Some [V1]) \<and>
   \<not> FitIn (sumAvailable (cpu 0) (take 0 [V1])) (allocatedResource (ask S2_working))"
  by code_simp


text \<open>
  Claim C3, amended. When \<^verbatim>\<open>calculateVictimsByNode\<close> returns a non-negative index together
  with a victim list, the index is a position in that list, that is, it lies in
  \<open>[0, len(victims) - 1]\<close>; the ask fits on the node once the victims up to and including
  that position are taken off it (a prefix of length index + 1), and with no shorter
  prefix, the empty one included.
\<close>

theorem calculateVictimsByNode_index:
  assumes "calculateVictimsByNode h p nodeAvailable potentialVictims = Some (h', index, Some victims)"
    and "0 \<le> index"
  shows "nat index < length victims \<and>
         FitIn (sumAvailable nodeAvailable (take (nat index + 1) victims)) (allocatedResource (ask p)) \<and>
         (\<forall>n \<le> nat index. \<not> FitIn (sumAvailable nodeAvailable (take n victims)) (allocatedResource (ask p)))"
proof -
  let ?askRes = "allocatedResource (ask p)"
  from assms have nofit: "\<not> FitIn nodeAvailable ?askRes"
    by (auto simp: calculateVictimsByNode_def)
  from assms nofit obtain snap h3 candidates where
    run: "calculateVictimsByNode_pass2 p snap h3 nodeAvailable (- 1) [] candidates = Some (h', index, victims)"
    by (auto simp: calculateVictimsByNode_def split: Option.bind_splits option.splits if_splits)
  have start: "nodeAvailable = sumAvailable nodeAvailable []"
    by (simp add: sumAvailable_def)
  have init: "indexInv nodeAvailable ?askRes (- 1) []"
    using nofit by (simp add: indexInv_def sumAvailable_def)
  from pass2_indexInv[OF run start init] assms(2) show ?thesis
    by (simp add: indexInv_def)
qed

theorem calculateVictimsByNode_index_witness:
  "calculateVictimsByNode S2_heap S2_working (cpu 0) [V1] =
     Some (S2_heap @
           [exQueue None ''root'' (cpu 7) (cpu 10) [],
            exQueue (Some 3) ''root.a'' (cpu 3) (cpu 5) [],
            exQueue (Some 3) ''root.b'' (cpu 4) (cpu 5) [V1, V2],
            exQueue None ''root'' (cpu 4) (cpu 10) [],
            exQueue (Some 6) ''root.a'' (cpu 0) (cpu 5) [],
            exQueue (Some 6) ''root.b'' (cpu 4) (cpu 5) [V1, V2]], 0, Some [V1]) \<and>
   FitIn (sumAvailable (cpu 0) (take 1 [V1])) (allocatedResource (ask S2_working)) \<and>
   \<not> FitIn (sumAvailable (cpu 0) (take 0 [V1])) (allocatedResource (ask S2_working))"
proof -
  have e: "calculateVictimsByNode S2_heap S2_working (cpu 0) [V1] =
     Some (S2_heap @
           [exQueue None ''root'' (cpu 7) (cpu 10) [],
            exQueue (Some 3) ''root.a'' (cpu 3) (cpu 5) [],
            exQueue (Some 3) ''root.b'' (cpu 4) (cpu 5) [V1, V2],
            exQueue None ''root'' (cpu 4) (cpu 10) [],
            exQueue (Some 6) ''root.a'' (cpu 0) (cpu 5) [],
            exQueue (Some 6) ''root.b'' (cpu 4) (cpu 5) [V1, V2]], 0, Some [V1])"
    by code_simp
  from calculateVictimsByNode_index[OF e] show ?thesis
    using e by simp
qed


section \<open>Scenario S1 and the gate\<close>

subsection \<open>Claim C2\<close>

text \<open>
  Claim C2 as stated fails: in scenario S1 \<^verbatim>\<open>TryPreemption\<close> returns \<^verbatim>\<open>(nil, false)\<close>, not
  a reserved allocation.
\<close>

theorem TryPreemption_S1_counterexample:
  "map_option (snd \<circ> snd \<circ> snd) (TryPreemption S1_collaborators S1_heap S1_preemptor) = Some (None, False)"
  by code_simp


text \<open>
  Claim C2, amended. In scenario S1 the per-node calculator returns \<open>(-1, [])\<close> for node N1,
  and \<^verbatim>\<open>TryPreemption\<close> returns \<^verbatim>\<open>(nil, false)\<close>: with no potential victim in any queue the
  feasibility precheck has nothing to remove and fails, the failure
  \<^verbatim>\<open>PreemptionDoesNotGuarantee\<close> is logged on the ask, no victim is marked preempted and no
  queue's preempting resource is incremented.
\<close>

theorem TryPreemption_S1:
  "calculateVictimsByNode S1_heap S1_preemptor (cpu 8) [] = Some (S1_heap, - 1, Some []) \<and>
   TryPreemption S1_collaborators S1_heap S1_preemptor =
     Some (S1_heap @ [exQueue None ''root'' (cpu 4) (cpu 10) [],
                      exQueue (Some 2) ''root.a'' (cpu 4) (cpu 10) []],
           S1_preemptor\<lparr>allocationsByQueue := Some [(''root'', 0), (''root.a'', 1)]\<rparr>,
           \<lparr>loggedFailure = Some ''PreemptionDoesNotGuarantee'', incPreempting = [],
            markedPreempted = [], released = None\<rparr>,
           None, False)"
  by code_simp


subsection \<open>Claim C9\<close>

text \<open>
  Claim C9 as stated fails: \<^verbatim>\<open>TryPreemption\<close> does not read the flag. In scenario S2, for
  an ask that has triggered preemption before, it succeeds again, marks V1 preempted and
  increments the preempting resource of V1's queue.
\<close>

theorem TryPreemption_triggered_counterexample:
  "hasTriggeredPreemption (ask S2_triggered) \<and>
   map_option (snd \<circ> snd) (TryPreemption S2_collaborators S2_heap S2_triggered) =
     Some (\<lparr>loggedFailure = None, incPreempting = [(''root.b'', cpu 3)],
            markedPreempted = [V1], released = Some [V1]\<rparr>,
           Some \<lparr>result_nodeID = ''N1'', result_ask = ask S2_triggered\<rparr>, True)"
  by code_simp


text \<open>
  Claim C9, amended. For every ask whose \<^verbatim>\<open>hasTriggeredPreemption\<close> flag is set, the gate
  \<^verbatim>\<open>CheckPreconditions\<close> returns false and leaves the preemptor and its ask as they were.
\<close>

theorem CheckPreconditions_triggered:
  assumes "hasTriggeredPreemption (ask p)"
  shows "CheckPreconditions now p = (False, p)"
  using assms by (simp add: CheckPreconditions_def)

theorem CheckPreconditions_triggered_witness:
  "hasTriggeredPreemption (ask S2_triggered) \<and>
   CheckPreconditions 20000000000 S2_triggered = (False, S2_triggered)"
proof -
  have t: "hasTriggeredPreemption (ask S2_triggered)"
    by (simp add: S2_triggered_def exPreemptor_def exAllocation_def)
  from CheckPreconditions_triggered[OF t] t show ?thesis by simp
qed

section \<open>Properties of the orchestrator\<close>

lemma TryPreemption_filter_node:
  "TryPreemption_filter askRes fitIn nid tot finals victims = (tot', finals')
   \<Longrightarrow> \<not> fitIn \<Longrightarrow> \<forall>v\<in>set finals. nodeID v = nid \<Longrightarrow> \<forall>v\<in>set finals'. nodeID v = nid"
proof (induction victims arbitrary: tot finals)
  case Nil
  then show ?case by simp
next
  case (Cons victim rest)
  show ?case
  proof (cases "nodeID victim \<noteq> nid")
    case True
    with Cons.prems have "TryPreemption_filter askRes fitIn nid tot finals rest = (tot', finals')"
      by simp
    from Cons.IH[OF this Cons.prems(2,3)] show ?thesis .
  next
    case False
    let ?finals = "if StrictlyGreaterThanOnlyExisting askRes tot then finals @ [victim] else finals"
    from Cons.prems False have run:
      "TryPreemption_filter askRes fitIn nid (Add tot (allocatedResource victim)) ?finals rest = (tot', finals')"
      by simp
    from Cons.prems(3) False have "\<forall>v\<in>set ?finals. nodeID v = nid" by simp
    from Cons.IH[OF run Cons.prems(2) this] show ?thesis .
  qed
qed

text \<open>
  When \<^verbatim>\<open>TryPreemption\<close> returns success it has handed a list of final victims to the
  resource manager for release, and if the ask did not fit the available resources of the
  returned node, every final victim is on the returned node.
\<close>

lemma TryPreemption_victims_on_node:
  assumes "TryPreemption c h p = Some (h', p', e, Some result, True)"
  shows "\<exists>finalVictims. released e = Some finalVictims \<and>
           (\<not> FitIn (nilAsZero (mapLookup (nodeAvailableMap p') (result_nodeID result)))
                (allocatedResource (ask p'))
            \<longrightarrow> (\<forall>v\<in>set finalVictims. nodeID v = result_nodeID result))"
proof -
  from assms obtain p2 nid victims1 tot finals where
    f: "TryPreemption_filter (allocatedResource (ask p2))
          (FitIn (nilAsZero (mapLookup (nodeAvailableMap p2) nid)) (allocatedResource (ask p2)))
          nid Zero [] victims1 = (tot, finals)"
    and p': "p' = p2\<lparr>ask := (ask p2)\<lparr>hasTriggeredPreemption := True\<rparr>\<rparr>"
    and e: "released e = Some finals"
    and r: "result_nodeID result = nid"
    by (auto simp: TryPreemption_def Let_def split: Option.bind_splits if_splits prod.splits)
  let ?askRes = "allocatedResource (ask p2)"
  have a: "allocatedResource (ask p') = ?askRes" and m: "nodeAvailableMap p' = nodeAvailableMap p2"
    using p' by simp_all
  have node: "\<forall>v\<in>set finals. nodeID v = nid"
    if "\<not> FitIn (nilAsZero (mapLookup (nodeAvailableMap p2) nid)) ?askRes"
    using TryPreemption_filter_node[OF f that] by simp
  from e node show ?thesis
    unfolding a m r by blast
qed

subsection \<open>Claim C1\<close>

text \<open>
  Claim C1. The source announces the shortfall guard (``in case of any shortfall between the
  ask resource requirement and total victims resources, preemption won't help'', ``stop
  collecting the victims once ask resource requirement met'') and tests it with
  \<^verbatim>\<open>StrictlyGreaterThanOnlyExisting\<close>, which is false as soon as one component of the victims'
  total exceeds that of the ask. In the scenario with two resources the per-node calculator
  needs W1 and W2 to make the ask of 3 cpu and 3 memory fit node N1; the filter keeps W1
  only, since with W1 counted the total of 5 cpu exceeds the 3 cpu of the ask.
  \<^verbatim>\<open>TryPreemption\<close> returns success for node N1 and releases W1 alone: the final victims sum
  to 5 cpu and 1 memory, which is less than the ask on memory, and with them released the
  ask still does not fit node N1.
\<close>

theorem TryPreemption_shortfall_missed:
  "map_option snd (calculateVictimsByNode shortfall_heap shortfall_working (cpuMem 0 0) [W1, W2]) =
     Some (1, Some [W1, W2]) \<and>
   map_option snd (map_option snd
     (TryPreemption shortfall_collaborators shortfall_heap shortfall_preemptor)) =
     Some (\<lparr>loggedFailure = None, incPreempting = [(''root.b'', cpuMem 5 1)],
            markedPreempted = [W1], released = Some [W1]\<rparr>,
           Some \<lparr>result_nodeID = ''N1'',
                 result_ask = (ask shortfall_preemptor)\<lparr>hasTriggeredPreemption := True\<rparr>\<rparr>,
           True) \<and>
   allocatedResource (ask shortfall_preemptor) = cpuMem 3 3 \<and>
   sumAllocated [W1] = cpuMem 5 1 \<and>
   Quantity (sumAllocated [W1]) ''memory'' < Quantity (allocatedResource (ask shortfall_preemptor)) ''memory'' \<and>
   Quantity (sumAvailable (cpuMem 0 0) [W1]) ''memory''
     < Quantity (allocatedResource (ask shortfall_preemptor)) ''memory''"
  by code_simp

section \<open>Properties of duplication\<close>

lemma set_AList_update: "set (AList.update k v al) \<subseteq> insert (k, v) (set al)"
  by (induction al) auto

lemma cacheInside_update:
  assumes "cacheInside n h copy" and "n \<le> length h"
  shows "cacheInside n (h @ [s]) (AList.update (QueuePath s) (length h) copy)"
  unfolding cacheInside_def
proof
  fix x assume "x \<in> set (AList.update (QueuePath s) (length h) copy)"
  with set_AList_update have "x = (QueuePath s, length h) \<or> x \<in> set copy" by fastforce
  then show "case x of (k, r) \<Rightarrow> n \<le> r \<and> r < length (h @ [s]) \<and> QueuePath ((h @ [s]) ! r) = k"
  proof
    assume "x = (QueuePath s, length h)"
    with assms(2) show ?thesis by simp
  next
    assume "x \<in> set copy"
    with assms(1) show ?thesis by (auto simp: cacheInside_def nth_append)
  qed
qed

lemma parentsInside_snoc:
  assumes "parentsInside n h" and "\<forall>q. Parent s = Some q \<longrightarrow> n \<le> q \<and> q < length h"
  shows "parentsInside n (h @ [s])"
  unfolding parentsInside_def
proof (intro allI impI)
  fix i q
  assume i: "n \<le> i \<and> i < length (h @ [s])" and p: "Parent ((h @ [s]) ! i) = Some q"
  show "n \<le> q \<and> q < i"
  proof (cases "i < length h")
    case True
    with p have "Parent (h ! i) = Some q" by (simp add: nth_append)
    with assms(1) i True show ?thesis unfolding parentsInside_def by blast
  next
    case False
    with i have e: "i = length h" by simp
    with p have "Parent s = Some q" by simp
    with assms(2) e show ?thesis by simp
  qed
qed

lemma allCells_snoc:
  assumes "allCells Q h" and "Q (QueuePath s) (GuaranteedResource s) (AskQueue s)"
  shows "allCells Q (h @ [s])"
  unfolding allCells_def
proof (intro allI impI)
  fix i assume i: "i < length (h @ [s])"
  show "Q (QueuePath ((h @ [s]) ! i)) (GuaranteedResource ((h @ [s]) ! i)) (AskQueue ((h @ [s]) ! i))"
  proof (cases "i < length h")
    case True
    with assms(1) have "Q (QueuePath (h ! i)) (GuaranteedResource (h ! i)) (AskQueue (h ! i))"
      unfolding allCells_def by blast
    with True show ?thesis by (simp add: nth_append)
  next
    case False
    with i have "i = length h" by simp
    with assms(2) show ?thesis by simp
  qed
qed

lemma edgesIn_snoc:
  assumes "edgesIn E h"
    and "\<forall>q. Parent s = Some q \<longrightarrow> q < length h \<and> (QueuePath s, QueuePath (h ! q)) \<in> E"
  shows "edgesIn E (h @ [s])"
  unfolding edgesIn_def
proof (intro allI impI)
  fix i q
  assume i: "i < length (h @ [s])" and p: "Parent ((h @ [s]) ! i) = Some q"
  show "q < length (h @ [s]) \<and> (QueuePath ((h @ [s]) ! i), QueuePath ((h @ [s]) ! q)) \<in> E"
  proof (cases "i < length h")
    case True
    with p have "Parent (h ! i) = Some q" by (simp add: nth_append)
    with assms(1) True have "q < length h \<and> (QueuePath (h ! i), QueuePath (h ! q)) \<in> E"
      unfolding edgesIn_def by blast
    with True show ?thesis by (simp add: nth_append)
  next
    case False
    with i have "i = length h" by simp
    with p have "Parent s = Some q" by simp
    with assms(2) have "q < length h \<and> (QueuePath s, QueuePath (h ! q)) \<in> E" by blast
    with \<open>i = length h\<close> show ?thesis by (simp add: nth_append)
  qed
qed

lemma nth_of_take:
  assumes "take (length h) h' = h" and "i < length h"
  shows "h' ! i = h ! i"
proof -
  from assms(2) have "take (length h) h' ! i = h' ! i" by simp
  with assms(1) show ?thesis by simp
qed

lemma dupPost_refl: "parentsInside n h \<Longrightarrow> cacheInside n h copy \<Longrightarrow> dupPost n Q E h h copy"
  by (simp add: dupPost_def)

lemma take_take_le:
  assumes "take (length h) h1 = h" and "take (length h1) h2 = h1"
  shows "take (length h) h2 = h"
proof -
  from arg_cong[OF assms(1), of length] have "length h \<le> length h1"
    by (simp add: min_def split: if_splits)
  then have "take (length h) (take (length h1) h2) = take (length h) h2"
    by (simp add: min_def)
  with assms show ?thesis by simp
qed

lemma dupPost_trans:
  assumes "dupPost n Q E h h1 copy1" and "dupPost n Q E h1 h2 copy2"
  shows "dupPost n Q E h h2 copy2"
proof -
  from assms have "take (length h) h2 = h"
    by (simp only: dupPost_def) (blast intro: take_take_le)
  moreover from assms have "length h \<le> length h2"
    by (simp add: dupPost_def)
  moreover from assms(2) have "parentsInside n h2" "cacheInside n h2 copy2"
    by (simp_all add: dupPost_def)
  moreover from assms have "allCells Q h \<longrightarrow> allCells Q h2" "edgesIn E h \<longrightarrow> edgesIn E h2"
    by (simp_all add: dupPost_def)
  ultimately show ?thesis by (simp add: dupPost_def)
qed

lemma dupPost_snoc:
  assumes post: "dupPost n Q E h h2 copy2" and n: "n \<le> length h" and a: "a < length h"
    and par: "(Parent (h ! a) = None \<and> parent = None) \<or>
              (\<exists>pa x. Parent (h ! a) = Some pa \<and> pa < length h \<and> parent = Some x \<and> n \<le> x \<and>
                 x < length h2 \<and> QueuePath (h2 ! x) = QueuePath (h ! pa))"
    and s: "s = \<lparr>Parent = parent, QueuePath = QueuePath (h2 ! a), Leaf = Leaf (h2 ! a),
                 AllocatedResource = AllocatedResource (h2 ! a),
                 PreemptingResource = PreemptingResource (h2 ! a),
                 MaxResource = MaxResource (h2 ! a),
                 GuaranteedResource = GuaranteedResource (h2 ! a),
                 PotentialVictims = PotentialVictims (h2 ! a),
                 AskQueue = AskQueue (h2 ! a)\<rparr>"
  shows "dupPost n Q E h (h2 @ [s]) (AList.update (QueuePath (h2 ! a)) (length h2) copy2)"
    and "dupHandle n h (Some a) (h2 @ [s]) (Some (length h2))"
proof -
  from post have tk: "take (length h) h2 = h" and le: "length h \<le> length h2"
    and pi: "parentsInside n h2" and ci: "cacheInside n h2 copy2"
    and ac: "allCells Q h \<longrightarrow> allCells Q h2" and ed: "edgesIn E h \<longrightarrow> edgesIn E h2"
    by (simp_all add: dupPost_def)
  from tk a have cell: "h2 ! a = h ! a" by (rule nth_of_take)
  from n le have n2: "n \<le> length h2" by simp
  have ps: "Parent s = parent" and qs: "QueuePath s = QueuePath (h ! a)"
    and gs: "GuaranteedResource s = GuaranteedResource (h ! a)" and as: "AskQueue s = AskQueue (h ! a)"
    using s cell by simp_all
  have "take (length h) (h2 @ [s]) = h"
    using tk le by simp
  moreover have "length h \<le> length (h2 @ [s])"
    using le by simp
  moreover have "parentsInside n (h2 @ [s])"
  proof (rule parentsInside_snoc[OF pi])
    from par ps show "\<forall>q. Parent s = Some q \<longrightarrow> n \<le> q \<and> q < length h2" by auto
  qed
  moreover have "cacheInside n (h2 @ [s]) (AList.update (QueuePath (h2 ! a)) (length h2) copy2)"
    using cacheInside_update[OF ci n2, of s] qs cell by simp
  moreover have "allCells Q (h2 @ [s])" if "allCells Q h"
  proof (rule allCells_snoc)
    from that ac show "allCells Q h2" by simp
    from that a have "Q (QueuePath (h ! a)) (GuaranteedResource (h ! a)) (AskQueue (h ! a))"
      unfolding allCells_def by blast
    then show "Q (QueuePath s) (GuaranteedResource s) (AskQueue s)"
      by (simp only: qs gs as)
  qed
  moreover have "edgesIn E (h2 @ [s])" if e: "edgesIn E h"
  proof (rule edgesIn_snoc)
    from e ed show "edgesIn E h2" by simp
    show "\<forall>q. Parent s = Some q \<longrightarrow> q < length h2 \<and> (QueuePath s, QueuePath (h2 ! q)) \<in> E"
    proof (intro allI impI)
      fix q assume "Parent s = Some q"
      with ps par obtain pa where pa: "Parent (h ! a) = Some pa" "pa < length h" "q < length h2"
        "QueuePath (h2 ! q) = QueuePath (h ! pa)" by auto
      from e a pa(1) have "(QueuePath (h ! a), QueuePath (h ! pa)) \<in> E"
        unfolding edgesIn_def by blast
      with pa qs show "q < length h2 \<and> (QueuePath s, QueuePath (h2 ! q)) \<in> E" by simp
    qed
  qed
  ultimately show "dupPost n Q E h (h2 @ [s]) (AList.update (QueuePath (h2 ! a)) (length h2) copy2)"
    by (simp add: dupPost_def)
  show "dupHandle n h (Some a) (h2 @ [s]) (Some (length h2))"
    using a n2 qs by (simp add: dupHandle_def)
qed

lemma Duplicate_invariant:
  assumes "Duplicate h copy qps = Some (h', copy', r)"
    and "n \<le> length h" and "parentsInside n h" and "cacheInside n h copy"
  shows "dupPost n Q E h h' copy' \<and> dupHandle n h qps h' r"
proof -
  have "\<forall>n. n \<le> length h \<and> parentsInside n h \<and> cacheInside n h copy \<longrightarrow>
          dupPost n Q E h (fst (h', copy', r)) (fst (snd (h', copy', r))) \<and>
          dupHandle n h qps (fst (h', copy', r)) (snd (snd (h', copy', r)))"
  proof (rule Duplicate.raw_induct
      [where P = "\<lambda>h copy qps res. \<forall>n. n \<le> length h \<and> parentsInside n h \<and> cacheInside n h copy \<longrightarrow>
              dupPost n Q E h (fst res) (fst (snd res)) \<and> dupHandle n h qps (fst res) (snd (snd res))"
        and h = h and copy = copy and qps = qps and y = "(h', copy', r)"])
    show "Duplicate h copy qps = Some (h', copy', r)" by fact
  next
    fix dup :: "heap \<Rightarrow> (string \<times> nat) list \<Rightarrow> nat option \<Rightarrow> (heap \<times> (string \<times> nat) list \<times> nat option) option"
      and h :: heap and copy qps res
    assume IH: "\<And>h copy qps res. dup h copy qps = Some res \<Longrightarrow>
        \<forall>n. n \<le> length h \<and> parentsInside n h \<and> cacheInside n h copy \<longrightarrow>
              dupPost n Q E h (fst res) (fst (snd res)) \<and> dupHandle n h qps (fst res) (snd (snd res))"
    assume eq: "(case qps of
        None \<Rightarrow> Some (h, copy, None)
      | Some a \<Rightarrow>
          if length h \<le> a then None
          else (case map_of copy (QueuePath (h ! a)) of
                  Some existing \<Rightarrow> Some (h, copy, Some existing)
                | None \<Rightarrow> do {
                    (h2, copy2, parent) \<leftarrow>
                      (case Parent (h ! a) of
                         None \<Rightarrow> Some (h, copy, None)
                       | Some pa \<Rightarrow> do {
                           (h1, copy1, _) \<leftarrow> dup h copy (Some pa);
                           dup h1 copy1 (Parent (h1 ! a))
                         });
                    let snapshot = \<lparr>Parent = parent,
                                    QueuePath = QueuePath (h2 ! a),
                                    Leaf = Leaf (h2 ! a),
                                    AllocatedResource = AllocatedResource (h2 ! a),
                                    PreemptingResource = PreemptingResource (h2 ! a),
                                    MaxResource = MaxResource (h2 ! a),
                                    GuaranteedResource = GuaranteedResource (h2 ! a),
                                    PotentialVictims = PotentialVictims (h2 ! a),
                                    AskQueue = AskQueue (h2 ! a)\<rparr>
                    in Some (h2 @ [snapshot], AList.update (QueuePath (h2 ! a)) (length h2) copy2,
                             Some (length h2))
                  })) = Some res"
    show "\<forall>n. n \<le> length h \<and> parentsInside n h \<and> cacheInside n h copy \<longrightarrow>
              dupPost n Q E h (fst res) (fst (snd res)) \<and> dupHandle n h qps (fst res) (snd (snd res))"
    proof (intro allI impI, elim conjE)
      fix n assume n: "n \<le> length h" and pi: "parentsInside n h" and ci: "cacheInside n h copy"
      show "dupPost n Q E h (fst res) (fst (snd res)) \<and> dupHandle n h qps (fst res) (snd (snd res))"
      proof (cases qps)
        case None
        with eq have "res = (h, copy, None)" by simp
        with None pi ci show ?thesis by (simp add: dupPost_refl dupHandle_def)
      next
        case (Some a)
        with eq have a: "a < length h" by (simp split: if_splits)
        show ?thesis
        proof (cases "map_of copy (QueuePath (h ! a))")
          case hit: (Some existing)
          with eq Some a have res: "res = (h, copy, Some existing)" by simp
          from hit have "(QueuePath (h ! a), existing) \<in> set copy" by (rule map_of_SomeD)
          with ci have "n \<le> existing \<and> existing < length h \<and> QueuePath (h ! existing) = QueuePath (h ! a)"
            unfolding cacheInside_def by blast
          with res Some a pi ci show ?thesis by (simp add: dupPost_refl dupHandle_def)
        next
          case miss: None
          from eq Some a miss obtain h2 copy2 parent where
            inner: "(case Parent (h ! a) of
                         None \<Rightarrow> Some (h, copy, None)
                       | Some pa \<Rightarrow> do {
                           (h1, copy1, _) \<leftarrow> dup h copy (Some pa);
                           dup h1 copy1 (Parent (h1 ! a))
                         }) = Some (h2, copy2, parent)"
            and res: "res = (h2 @ [\<lparr>Parent = parent,
                                    QueuePath = QueuePath (h2 ! a),
                                    Leaf = Leaf (h2 ! a),
                                    AllocatedResource = AllocatedResource (h2 ! a),
                                    PreemptingResource = PreemptingResource (h2 ! a),
                                    MaxResource = MaxResource (h2 ! a),
                                    GuaranteedResource = GuaranteedResource (h2 ! a),
                                    PotentialVictims = PotentialVictims (h2 ! a),
                                    AskQueue = AskQueue (h2 ! a)\<rparr>],
                      AList.update (QueuePath (h2 ! a)) (length h2) copy2, Some (length h2))"
            by (auto simp: Let_def split: Option.bind_splits)
          have post: "dupPost n Q E h h2 copy2 \<and>
              ((Parent (h ! a) = None \<and> parent = None) \<or>
               (\<exists>pa x. Parent (h ! a) = Some pa \<and> pa < length h \<and> parent = Some x \<and> n \<le> x \<and>
                  x < length h2 \<and> QueuePath (h2 ! x) = QueuePath (h ! pa)))"
          proof (cases "Parent (h ! a)")
            case None
            with inner pi ci show ?thesis by (simp add: dupPost_refl)
          next
            case par: (Some pa)
            with inner obtain h1 copy1 r1 where
              d1: "dup h copy (Some pa) = Some (h1, copy1, r1)"
              and d2: "dup h1 copy1 (Parent (h1 ! a)) = Some (h2, copy2, parent)"
              by (auto split: Option.bind_splits)
            from IH[OF d1] n pi ci have p1: "dupPost n Q E h h1 copy1" and h1: "dupHandle n h (Some pa) h1 r1"
              by simp_all
            from h1 have pa: "pa < length h" by (simp add: dupHandle_def)
            from p1 have tk1: "take (length h) h1 = h" and le1: "length h \<le> length h1"
              and pi1: "parentsInside n h1" and ci1: "cacheInside n h1 copy1"
              by (simp_all add: dupPost_def)
            from nth_of_take[OF tk1 a] par have par1: "Parent (h1 ! a) = Some pa" by simp
            from n le1 have n1: "n \<le> length h1" by simp
            from IH[OF d2] n1 pi1 ci1 have p2: "dupPost n Q E h1 h2 copy2"
              and h2: "dupHandle n h1 (Parent (h1 ! a)) h2 parent"
              by simp_all
            from h2 par1 obtain x where x: "parent = Some x" "n \<le> x" "x < length h2"
              "QueuePath (h2 ! x) = QueuePath (h1 ! pa)"
              by (auto simp: dupHandle_def)
            from nth_of_take[OF tk1 pa] x(4) have "QueuePath (h2 ! x) = QueuePath (h ! pa)" by simp
            with dupPost_trans[OF p1 p2] par pa x show ?thesis by blast
          qed
          from post have p: "dupPost n Q E h h2 copy2" and q: "(Parent (h ! a) = None \<and> parent = None) \<or>
               (\<exists>pa x. Parent (h ! a) = Some pa \<and> pa < length h \<and> parent = Some x \<and> n \<le> x \<and>
                  x < length h2 \<and> QueuePath (h2 ! x) = QueuePath (h ! pa))"
            by blast+
          from dupPost_snoc[OF p n a q refl] res Some show ?thesis by simp
        qed
      qed
    qed
  qed
  with assms(2-4) show ?thesis by simp
qed

lemma duplicateQueueSnapshots_loop_invariant:
  "duplicateQueueSnapshots_loop h copy qs = Some (h', copy') \<Longrightarrow> n \<le> length h
   \<Longrightarrow> parentsInside n h \<Longrightarrow> cacheInside n h copy \<Longrightarrow> dupPost n Q E h h' copy'"
proof (induction qs arbitrary: h copy)
  case Nil
  then show ?case by (simp add: dupPost_refl)
next
  case (Cons q qs)
  obtain path snapshot where q: "q = (path, snapshot)" by (cases q)
  with Cons.prems(1) obtain h1 copy1 r1 where
    d: "Duplicate h copy (Some snapshot) = Some (h1, copy1, r1)"
    and l: "duplicateQueueSnapshots_loop h1 copy1 qs = Some (h', copy')"
    by (auto split: Option.bind_splits)
  from Duplicate_invariant[OF d Cons.prems(2-4)] have p1: "dupPost n Q E h h1 copy1"
    by simp
  then have "length h \<le> length h1" "parentsInside n h1" "cacheInside n h1 copy1"
    by (simp_all add: dupPost_def)
  with Cons.prems(2) have "dupPost n Q E h1 h' copy'"
    by (intro Cons.IH[OF l]) simp_all
  with p1 show ?case by (rule dupPost_trans)
qed

lemma parentsInside_empty: "parentsInside (length h) h"
  by (simp add: parentsInside_def)

lemma cacheInside_empty: "cacheInside n h []"
  by (simp add: cacheInside_def)

lemma chain_extend:
  "chain h q as \<Longrightarrow> take (length h) h' = h \<Longrightarrow> chain h' q as"
proof (induction rule: chain.induct)
  case (chain_nil h)
  show ?case by (rule chain.chain_nil)
next
  case (chain_cons a h as)
  from arg_cong[OF chain_cons.prems, of length] have le: "length h \<le> length h'"
    by (simp add: min_def split: if_splits)
  from nth_of_take[OF chain_cons.prems chain_cons.hyps(1)] have "h' ! a = h ! a" .
  with chain_cons le show ?case by (auto intro!: chain.chain_cons)
qed

lemma chain_inside:
  assumes "parentsInside n h"
  shows "n \<le> a \<Longrightarrow> a < length h \<Longrightarrow> \<exists>as. chain h (Some a) as \<and> set as \<subseteq> {n..<length h}"
proof (induction a rule: less_induct)
  case (less a)
  show ?case
  proof (cases "Parent (h ! a)")
    case None
    with less.prems have "chain h (Some a) [a]"
      by (auto intro!: chain.intros)
    with less.prems show ?thesis by (intro exI[of _ "[a]"]) simp
  next
    case (Some q)
    with assms less.prems have q: "n \<le> q" "q < a" unfolding parentsInside_def by blast+
    with less.prems less.IH[of q] obtain as where as: "chain h (Some q) as" "set as \<subseteq> {n..<length h}"
      by auto
    with Some less.prems have "chain h (Some a) (a # as)"
      by (auto intro!: chain.chain_cons)
    with as less.prems show ?thesis by (intro exI[of _ "a # as"]) simp
  qed
qed

lemma mutate_frame:
  "\<forall>m\<in>set ms. \<exists>as. chain g (Some (target m)) as \<and> set as \<subseteq> R \<Longrightarrow>
   \<exists>g'. mutate g ms = Some g' \<and> length g' = length g \<and>
        (\<forall>i<length g. i \<notin> R \<longrightarrow> g' ! i = g ! i) \<and>
        (\<forall>i<length g. Parent (g' ! i) = Parent (g ! i))"
proof (induction ms arbitrary: g)
  case Nil
  then show ?case by simp
next
  case (Cons m ms)
  from Cons.prems obtain as where as: "chain g (Some (target m)) as" "set as \<subseteq> R"
    by auto
  have step: "\<exists>g1. mutate g (m # ms) = mutate g1 ms \<and> length g1 = length g \<and>
        (\<forall>i<length g. i \<notin> R \<longrightarrow> g1 ! i = g ! i) \<and>
        (\<forall>i<length g. Parent (g1 ! i) = Parent (g ! i))"
  proof (cases m)
    case (AddAlloc a r)
    with as have "chain g (Some a) as" by simp
    from AddAllocation_chain[OF this, of r] obtain g1 where
      g1: "AddAllocation g (Some a) r = Some g1" "length g1 = length g"
        "\<forall>i<length g. g1 ! i =
           (if i \<in> set as then (g ! i)\<lparr>AllocatedResource := Add (AllocatedResource (g ! i)) r\<rparr>
            else g ! i)" by blast
    from g1(3) as(2) have "\<forall>i<length g. i \<notin> R \<longrightarrow> g1 ! i = g ! i" by auto
    moreover from g1(3) have "\<forall>i<length g. Parent (g1 ! i) = Parent (g ! i)" by simp
    ultimately show ?thesis using g1(1,2) AddAlloc by (intro exI[of _ g1]) simp
  next
    case (RemoveAlloc a r)
    with as have "chain g (Some a) as" by simp
    from RemoveAllocation_chain[OF this, of r] obtain g1 where
      g1: "RemoveAllocation g (Some a) r = Some g1" "length g1 = length g"
        "\<forall>i<length g. g1 ! i =
           (if i \<in> set as then (g ! i)\<lparr>AllocatedResource := Sub (AllocatedResource (g ! i)) r\<rparr>
            else g ! i)" by blast
    from g1(3) as(2) have "\<forall>i<length g. i \<notin> R \<longrightarrow> g1 ! i = g ! i" by auto
    moreover from g1(3) have "\<forall>i<length g. Parent (g1 ! i) = Parent (g ! i)" by simp
    ultimately show ?thesis using g1(1,2) RemoveAlloc by (intro exI[of _ g1]) simp
  qed
  then obtain g1 where g1: "mutate g (m # ms) = mutate g1 ms" "length g1 = length g"
    "\<forall>i<length g. i \<notin> R \<longrightarrow> g1 ! i = g ! i" "\<forall>i<length g. Parent (g1 ! i) = Parent (g ! i)"
    by blast
  have "\<forall>m\<in>set ms. \<exists>as. chain g1 (Some (target m)) as \<and> set as \<subseteq> R"
  proof
    fix m' assume "m' \<in> set ms"
    with Cons.prems obtain bs where bs: "chain g (Some (target m')) bs" "set bs \<subseteq> R" by auto
    from chain_cong[OF bs(1) g1(2) g1(4)] bs(2)
    show "\<exists>as. chain g1 (Some (target m')) as \<and> set as \<subseteq> R" by blast
  qed
  from Cons.IH[OF this] obtain g' where g': "mutate g1 ms = Some g'" "length g' = length g1"
    "\<forall>i<length g1. i \<notin> R \<longrightarrow> g' ! i = g1 ! i" "\<forall>i<length g1. Parent (g' ! i) = Parent (g1 ! i)"
    by blast
  from g1 g' show ?case by (intro exI[of _ g']) simp
qed

subsection \<open>Claim C6\<close>

text \<open>
  Claim C6. Duplicating the queue snapshots into a fresh map (\<^verbatim>\<open>duplicateQueueSnapshots\<close>
  calls \<^verbatim>\<open>Duplicate\<close> on each of them) leaves the heap of the originals as it
  was and puts new snapshots only into the map. Every sequence of \<^verbatim>\<open>AddAllocation\<close> and
  \<^verbatim>\<open>RemoveAllocation\<close> calls on duplicates returns and leaves every original snapshot, with
  all its fields, unchanged; and every such sequence on original snapshots (whose parent
  pointers end at a root) returns and leaves every duplicate unchanged.
\<close>

theorem Duplicate_independence:
  assumes "duplicateQueueSnapshots h p = Some (h', copy)"
  shows "take (length h) h' = h \<and>
         (\<forall>(k, r)\<in>set copy. length h \<le> r \<and> r < length h') \<and>
         (\<forall>ms. (\<forall>m\<in>set ms. length h \<le> target m \<and> target m < length h') \<longrightarrow>
            (\<exists>h''. mutate h' ms = Some h'' \<and> take (length h) h'' = h)) \<and>
         (\<forall>ms. (\<forall>m\<in>set ms. \<exists>as. chain h (Some (target m)) as) \<longrightarrow>
            (\<exists>h''. mutate h' ms = Some h'' \<and> drop (length h) h'' = drop (length h) h'))"
proof -
  from assms
  have "duplicateQueueSnapshots_loop h [] (mapEntries (allocationsByQueue p)) = Some (h', copy)"
    by (simp add: duplicateQueueSnapshots_def)
  from duplicateQueueSnapshots_loop_invariant[OF this order_refl parentsInside_empty cacheInside_empty,
      of "\<lambda>_ _ _. True" UNIV]
  have tk: "take (length h) h' = h" and le: "length h \<le> length h'"
    and pi: "parentsInside (length h) h'" and ci: "cacheInside (length h) h' copy"
    by (simp_all add: dupPost_def)
  from ci have fresh: "\<forall>(k, r)\<in>set copy. length h \<le> r \<and> r < length h'"
    unfolding cacheInside_def by blast
  have dup: "\<exists>h''. mutate h' ms = Some h'' \<and> take (length h) h'' = h"
    if ms: "\<forall>m\<in>set ms. length h \<le> target m \<and> target m < length h'" for ms
  proof -
    from ms chain_inside[OF pi]
    have "\<forall>m\<in>set ms. \<exists>as. chain h' (Some (target m)) as \<and> set as \<subseteq> {length h..<length h'}"
      by blast
    from mutate_frame[OF this] obtain h'' where h'': "mutate h' ms = Some h''"
      "length h'' = length h'" "\<forall>i<length h'. i \<notin> {length h..<length h'} \<longrightarrow> h'' ! i = h' ! i"
      by blast
    have "take (length h) h'' = h"
    proof (rule nth_equalityI)
      show "length (take (length h) h'') = length h" using h''(2) le by simp
    next
      fix i assume "i < length (take (length h) h'')"
      then have i: "i < length h" by simp
      with le h''(3) have "h'' ! i = h' ! i" by simp
      with i nth_of_take[OF tk i] show "take (length h) h'' ! i = h ! i" by simp
    qed
    with h''(1) show ?thesis by blast
  qed
  have orig: "\<exists>h''. mutate h' ms = Some h'' \<and> drop (length h) h'' = drop (length h) h'"
    if ms: "\<forall>m\<in>set ms. \<exists>as. chain h (Some (target m)) as" for ms
  proof -
    have "\<forall>m\<in>set ms. \<exists>as. chain h' (Some (target m)) as \<and> set as \<subseteq> {..<length h}"
    proof
      fix m assume "m \<in> set ms"
      with ms obtain as where as: "chain h (Some (target m)) as" by blast
      then have "set as \<subseteq> {..<length h}" by (auto dest: chain_in_heap)
      with chain_extend[OF as tk] show "\<exists>as. chain h' (Some (target m)) as \<and> set as \<subseteq> {..<length h}"
        by blast
    qed
    from mutate_frame[OF this] obtain h'' where h'': "mutate h' ms = Some h''"
      "length h'' = length h'" "\<forall>i<length h'. i \<notin> {..<length h} \<longrightarrow> h'' ! i = h' ! i"
      by blast
    have "drop (length h) h'' = drop (length h) h'"
    proof (rule nth_equalityI)
      show "length (drop (length h) h'') = length (drop (length h) h')" using h''(2) by simp
    next
      fix i assume "i < length (drop (length h) h'')"
      with h''(2) have "length h + i < length h'" by simp
      with h''(2,3) show "drop (length h) h'' ! i = drop (length h) h' ! i" by simp
    qed
    with h''(1) show ?thesis by blast
  qed
  from tk fresh dup orig show ?thesis by blast
qed

theorem Duplicate_independence_witness:
  "duplicateQueueSnapshots S2_heap S2_snapshotted =
     Some (S2_duplicated, [(''root'', 3), (''root.a'', 4), (''root.b'', 5)]) \<and>
   (\<exists>h''. mutate S2_duplicated [AddAlloc 4 (cpu 3), RemoveAlloc 5 (cpu 3)] = Some h'' \<and>
          take (length S2_heap) h'' = S2_heap) \<and>
   (\<exists>h''. mutate S2_duplicated [AddAlloc 1 (cpu 3)] = Some h'' \<and>
          drop (length S2_heap) h'' = drop (length S2_heap) S2_duplicated)"
proof -
  have d: "duplicateQueueSnapshots S2_heap S2_snapshotted =
     Some (S2_duplicated, [(''root'', 3), (''root.a'', 4), (''root.b'', 5)])"
    by code_simp
  have t: "\<forall>m\<in>set [AddAlloc 4 (cpu 3), RemoveAlloc 5 (cpu 3)].
             length S2_heap \<le> target m \<and> target m < length S2_duplicated"
    by (simp add: S2_heap_def S2_duplicated_def)
  have "chain S2_heap (Some 1) [1, 0]"
    by (auto intro!: chain.intros simp: S2_heap_def exQueue_def)
  then have c: "\<forall>m\<in>set [AddAlloc 1 (cpu 3)]. \<exists>as. chain S2_heap (Some (target m)) as"
    by auto
  from Duplicate_independence[OF d] t c d show ?thesis by blast
qed

section \<open>Properties of the feasibility precheck\<close>

lemma staticEq_cell:
  assumes "staticEq g g'" and "i < length g"
  shows "Parent (g' ! i) = Parent (g ! i)" and "QueuePath (g' ! i) = QueuePath (g ! i)"
    and "GuaranteedResource (g' ! i) = GuaranteedResource (g ! i)"
    and "AskQueue (g' ! i) = AskQueue (g ! i)"
    and "PotentialVictims (g' ! i) = PotentialVictims (g ! i)"
proof -
  from assms have c: "g' ! i = (g ! i)\<lparr>AllocatedResource := AllocatedResource (g' ! i)\<rparr>"
    unfolding staticEq_def by blast
  show "Parent (g' ! i) = Parent (g ! i)" by (subst c) simp
  show "QueuePath (g' ! i) = QueuePath (g ! i)" by (subst c) simp
  show "GuaranteedResource (g' ! i) = GuaranteedResource (g ! i)" by (subst c) simp
  show "AskQueue (g' ! i) = AskQueue (g ! i)" by (subst c) simp
  show "PotentialVictims (g' ! i) = PotentialVictims (g ! i)" by (subst c) simp
qed

lemma staticEq_length: "staticEq g g' \<Longrightarrow> length g' = length g"
  by (simp add: staticEq_def)

lemma staticEq_refl: "staticEq g g"
  by (simp add: staticEq_def)

lemma staticEq_trans:
  assumes "staticEq g g1" and "staticEq g1 g2"
  shows "staticEq g g2"
  unfolding staticEq_def
proof (intro conjI allI impI)
  show "length g2 = length g" using assms by (simp add: staticEq_def)
next
  fix i assume i: "i < length g"
  with assms(1) have c1: "g1 ! i = (g ! i)\<lparr>AllocatedResource := AllocatedResource (g1 ! i)\<rparr>"
    unfolding staticEq_def by blast
  from i assms(1) have "i < length g1" by (simp add: staticEq_def)
  with assms(2) have c2: "g2 ! i = (g1 ! i)\<lparr>AllocatedResource := AllocatedResource (g2 ! i)\<rparr>"
    unfolding staticEq_def by blast
  show "g2 ! i = (g ! i)\<lparr>AllocatedResource := AllocatedResource (g2 ! i)\<rparr>"
    by (subst c2, subst c1) simp
qed

lemma AddAllocation_staticEq:
  assumes "chain g (Some a) as"
  shows "\<exists>g'. AddAllocation g (Some a) r = Some g' \<and> staticEq g g'"
proof -
  from AddAllocation_chain[OF assms, of r] obtain g' where
    g': "AddAllocation g (Some a) r = Some g'" "length g' = length g"
      "\<forall>i<length g. g' ! i =
         (if i \<in> set as then (g ! i)\<lparr>AllocatedResource := Add (AllocatedResource (g ! i)) r\<rparr>
          else g ! i)" by blast
  have "staticEq g g'"
    unfolding staticEq_def
  proof (intro conjI allI impI)
    show "length g' = length g" by fact
  next
    fix i assume "i < length g"
    with g'(3) have "g' ! i =
         (if i \<in> set as then (g ! i)\<lparr>AllocatedResource := Add (AllocatedResource (g ! i)) r\<rparr>
          else g ! i)" by blast
    then show "g' ! i = (g ! i)\<lparr>AllocatedResource := AllocatedResource (g' ! i)\<rparr>"
      by (cases "i \<in> set as") simp_all
  qed
  with g'(1) show ?thesis by blast
qed

lemma RemoveAllocation_staticEq:
  assumes "chain g (Some a) as"
  shows "\<exists>g'. RemoveAllocation g (Some a) r = Some g' \<and> staticEq g g'"
proof -
  from RemoveAllocation_chain[OF assms, of r] obtain g' where
    g': "RemoveAllocation g (Some a) r = Some g'" "length g' = length g"
      "\<forall>i<length g. g' ! i =
         (if i \<in> set as then (g ! i)\<lparr>AllocatedResource := Sub (AllocatedResource (g ! i)) r\<rparr>
          else g ! i)" by blast
  have "staticEq g g'"
    unfolding staticEq_def
  proof (intro conjI allI impI)
    show "length g' = length g" by fact
  next
    fix i assume "i < length g"
    with g'(3) have "g' ! i =
         (if i \<in> set as then (g ! i)\<lparr>AllocatedResource := Sub (AllocatedResource (g ! i)) r\<rparr>
          else g ! i)" by blast
    then show "g' ! i = (g ! i)\<lparr>AllocatedResource := AllocatedResource (g' ! i)\<rparr>"
      by (cases "i \<in> set as") simp_all
  qed
  with g'(1) show ?thesis by blast
qed

lemma staticEq_parentsInside:
  assumes "staticEq g g'" and "parentsInside n g"
  shows "parentsInside n g'"
  unfolding parentsInside_def
proof (intro allI impI)
  fix i q assume i: "n \<le> i \<and> i < length g'" and p: "Parent (g' ! i) = Some q"
  with assms(1) have i': "i < length g" by (simp add: staticEq_def)
  with staticEq_cell(1)[OF assms(1)] p have "Parent (g ! i) = Some q" by simp
  with assms(2) i i' show "n \<le> q \<and> q < i" unfolding parentsInside_def by blast
qed

lemma staticEq_hierarchy:
  assumes "staticEq g g'" and "hierarchyWithoutGuarantee A g"
  shows "hierarchyWithoutGuarantee A g'"
proof -
  from assms(1) have len: "length g' = length g" by (simp add: staticEq_def)
  from assms(2) have ac: "allCells (\<lambda>path guaranteed askQueue. path \<in> A \<longrightarrow> IsEmpty guaranteed) g"
    and ed: "edgesIn {(child, parent). child \<in> A \<longrightarrow> parent \<in> A} g"
    by (simp_all add: hierarchyWithoutGuarantee_def)
  have "allCells (\<lambda>path guaranteed askQueue. path \<in> A \<longrightarrow> IsEmpty guaranteed) g'"
    unfolding allCells_def
  proof (intro allI impI)
    fix i assume "i < length g'" and pa: "QueuePath (g' ! i) \<in> A"
    with len have i: "i < length g" by simp
    from ac i have "QueuePath (g ! i) \<in> A \<longrightarrow> IsEmpty (GuaranteedResource (g ! i))"
      unfolding allCells_def by blast
    with pa staticEq_cell(2,3)[OF assms(1) i] show "IsEmpty (GuaranteedResource (g' ! i))" by simp
  qed
  moreover have "edgesIn {(child, parent). child \<in> A \<longrightarrow> parent \<in> A} g'"
    unfolding edgesIn_def
  proof (intro allI impI)
    fix i q assume "i < length g'" and p: "Parent (g' ! i) = Some q"
    with len have i: "i < length g" by simp
    with staticEq_cell(1)[OF assms(1) i] p have "Parent (g ! i) = Some q" by simp
    with ed i have q: "q < length g" "(QueuePath (g ! i), QueuePath (g ! q)) \<in> {(child, parent). child \<in> A \<longrightarrow> parent \<in> A}"
      unfolding edgesIn_def by blast+
    with staticEq_cell(2)[OF assms(1) i] staticEq_cell(2)[OF assms(1) q(1)] len
    show "q < length g' \<and> (QueuePath (g' ! i), QueuePath (g' ! q)) \<in> {(child, parent). child \<in> A \<longrightarrow> parent \<in> A}"
      by simp
  qed
  ultimately show ?thesis by (simp add: hierarchyWithoutGuarantee_def)
qed

lemma chain_hierarchy:
  "chain g q as \<Longrightarrow> hierarchyWithoutGuarantee A g \<Longrightarrow> (\<forall>a. q = Some a \<longrightarrow> QueuePath (g ! a) \<in> A)
   \<Longrightarrow> \<forall>i\<in>set as. IsEmpty (GuaranteedResource (g ! i))"
proof (induction rule: chain.induct)
  case (chain_nil h)
  show ?case by simp
next
  case (chain_cons a h as)
  from chain_cons.prems have pa: "QueuePath (h ! a) \<in> A" by simp
  from chain_cons.prems(1) have ac: "allCells (\<lambda>path guaranteed askQueue. path \<in> A \<longrightarrow> IsEmpty guaranteed) h"
    and ed: "edgesIn {(child, parent). child \<in> A \<longrightarrow> parent \<in> A} h"
    by (simp_all add: hierarchyWithoutGuarantee_def)
  from ac chain_cons.hyps(1) pa have e: "IsEmpty (GuaranteedResource (h ! a))"
    unfolding allCells_def by blast
  have "\<forall>b. Parent (h ! a) = Some b \<longrightarrow> QueuePath (h ! b) \<in> A"
  proof (intro allI impI)
    fix b assume "Parent (h ! a) = Some b"
    with ed chain_cons.hyps(1) have "(QueuePath (h ! a), QueuePath (h ! b)) \<in> {(child, parent). child \<in> A \<longrightarrow> parent \<in> A}"
      unfolding edgesIn_def by blast
    with pa show "QueuePath (h ! b) \<in> A" by simp
  qed
  from chain_cons.IH[OF chain_cons.prems(1) this] e show ?case by simp
qed


lemma GetRemainingGuaranteedResource_nil:
  "chain g q as \<Longrightarrow> \<forall>i\<in>set as. IsEmpty (GuaranteedResource (g ! i))
   \<Longrightarrow> GetRemainingGuaranteedResource g q = Some None"
proof (induction rule: chain.induct)
  case (chain_nil h)
  show ?case by (simp add: GetRemainingGuaranteedResource.simps[of h None])
next
  case (chain_cons a h as)
  then have p: "GetRemainingGuaranteedResource h (Parent (h ! a)) = Some None"
    and e: "IsEmpty (GuaranteedResource (h ! a))" by simp_all
  with chain_cons.hyps(1) show ?case
    by (subst GetRemainingGuaranteedResource.simps) (simp add: nilAsZero_def IsEmpty_Zero)
qed

lemma take_snoc_le:
  assumes "take (length h) h2 = h"
  shows "take (length h) (h2 @ [s]) = h"
proof -
  from arg_cong[OF assms, of length] have "length h \<le> length h2"
    by (simp add: min_def split: if_splits)
  with assms show ?thesis by simp
qed

lemma Duplicate_extends:
  assumes "Duplicate h copy qps = Some (h', copy', r)"
  shows "take (length h) h' = h"
proof -
  have "take (length h) (fst (h', copy', r)) = h"
  proof (rule Duplicate.raw_induct
      [where P = "\<lambda>h copy qps res. take (length h) (fst res) = h"
        and h = h and copy = copy and qps = qps and y = "(h', copy', r)"])
    show "Duplicate h copy qps = Some (h', copy', r)" by fact
  next
    fix dup :: "heap \<Rightarrow> (string \<times> nat) list \<Rightarrow> nat option \<Rightarrow> (heap \<times> (string \<times> nat) list \<times> nat option) option"
      and h :: heap and copy qps res
    assume IH: "\<And>h copy qps res. dup h copy qps = Some res \<Longrightarrow> take (length h) (fst res) = h"
    assume eq: "(case qps of
        None \<Rightarrow> Some (h, copy, None)
      | Some a \<Rightarrow>
          if length h \<le> a then None
          else (case map_of copy (QueuePath (h ! a)) of
                  Some existing \<Rightarrow> Some (h, copy, Some existing)
                | None \<Rightarrow> do {
                    (h2, copy2, parent) \<leftarrow>
                      (case Parent (h ! a) of
                         None \<Rightarrow> Some (h, copy, None)
                       | Some pa \<Rightarrow> do {
                           (h1, copy1, _) \<leftarrow> dup h copy (Some pa);
                           dup h1 copy1 (Parent (h1 ! a))
                         });
                    let snapshot = \<lparr>Parent = parent,
                                    QueuePath = QueuePath (h2 ! a),
                                    Leaf = Leaf (h2 ! a),
                                    AllocatedResource = AllocatedResource (h2 ! a),
                                    PreemptingResource = PreemptingResource (h2 ! a),
                                    MaxResource = MaxResource (h2 ! a),
                                    GuaranteedResource = GuaranteedResource (h2 ! a),
                                    PotentialVictims = PotentialVictims (h2 ! a),
                                    AskQueue = AskQueue (h2 ! a)\<rparr>
                    in Some (h2 @ [snapshot], AList.update (QueuePath (h2 ! a)) (length h2) copy2,
                             Some (length h2))
                  })) = Some res"
    show "take (length h) (fst res) = h"
    proof (cases qps)
      case None
      with eq show ?thesis by auto
    next
      case (Some a)
      with eq have a: "a < length h" by (simp split: if_splits)
      show ?thesis
      proof (cases "map_of copy (QueuePath (h ! a))")
        case hit: (Some existing)
        with eq Some a show ?thesis by auto
      next
        case miss: None
        from eq Some a miss obtain h2 copy2 parent s where
          inner: "(case Parent (h ! a) of
                       None \<Rightarrow> Some (h, copy, None)
                     | Some pa \<Rightarrow> do {
                         (h1, copy1, _) \<leftarrow> dup h copy (Some pa);
                         dup h1 copy1 (Parent (h1 ! a))
                       }) = Some (h2, copy2, parent)"
          and res: "fst res = h2 @ [s]"
          by (auto simp: Let_def split: Option.bind_splits)
        have "take (length h) h2 = h"
        proof (cases "Parent (h ! a)")
          case None
          with inner show ?thesis by simp
        next
          case par: (Some pa)
          with inner obtain h1 copy1 r1 where
            d1: "dup h copy (Some pa) = Some (h1, copy1, r1)"
            and d2: "dup h1 copy1 (Parent (h1 ! a)) = Some (h2, copy2, parent)"
            by (auto split: Option.bind_splits)
          from IH[OF d1] IH[OF d2] show ?thesis by (simp add: take_take_le)
        qed
        with res show ?thesis by (simp only: take_snoc_le)
      qed
    qed
  qed
  then show ?thesis by simp
qed

lemma Duplicate_returns:
  "chain h q as \<Longrightarrow> take (length h) g = h \<Longrightarrow> \<exists>res. Duplicate g copy q = Some res"
proof (induction arbitrary: g copy rule: chain.induct)
  case (chain_nil h)
  show ?case by (simp add: Duplicate.simps[of g copy None])
next
  case (chain_cons a h as)
  from arg_cong[OF chain_cons.prems, of length] have le: "length h \<le> length g"
    by (simp add: min_def split: if_splits)
  with chain_cons.hyps(1) have a: "a < length g" by simp
  from nth_of_take[OF chain_cons.prems chain_cons.hyps(1)] have cell: "g ! a = h ! a" .
  show ?case
  proof (cases "Parent (h ! a)")
    case None
    with a cell show ?thesis
      by (subst Duplicate.simps) (simp add: Let_def split: option.splits)
  next
    case (Some pa)
    from chain_cons.IH[OF chain_cons.prems, of copy] Some obtain g1 copy1 r1 where
      d1: "Duplicate g copy (Some pa) = Some (g1, copy1, r1)" by auto
    from Duplicate_extends[OF d1] have e1: "take (length g) g1 = g" .
    from chain_cons.prems e1 have e: "take (length h) g1 = h" by (rule take_take_le)
    from nth_of_take[OF e chain_cons.hyps(1)] Some have p1: "Parent (g1 ! a) = Some pa" by simp
    from chain_cons.IH[OF e, of copy1] Some obtain res2 where
      d2: "Duplicate g1 copy1 (Some pa) = Some res2" by auto
    obtain g2 copy2 r2 where res2: "res2 = (g2, copy2, r2)" by (cases res2)
    from a cell Some d1 d2 p1 res2 show ?thesis
      by (subst Duplicate.simps) (simp add: Let_def split: option.splits)
  qed
qed

lemma duplicateQueueSnapshots_loop_returns:
  "\<forall>(k, r)\<in>set qs. \<exists>as. chain h (Some r) as \<Longrightarrow> take (length h) g = h
   \<Longrightarrow> \<exists>res. duplicateQueueSnapshots_loop g copy qs = Some res"
proof (induction qs arbitrary: g copy)
  case Nil
  show ?case by simp
next
  case (Cons q qs)
  obtain path snapshot where q: "q = (path, snapshot)" by (cases q)
  with Cons.prems(1) obtain as where "chain h (Some snapshot) as" by auto
  from Duplicate_returns[OF this Cons.prems(2), of copy] obtain g1 copy1 r1 where
    d: "Duplicate g copy (Some snapshot) = Some (g1, copy1, r1)" by (metis prod_cases3)
  from Cons.prems(2) Duplicate_extends[OF d] have "take (length h) g1 = h"
    by (rule take_take_le)
  moreover from Cons.prems(1) have "\<forall>(k, r)\<in>set qs. \<exists>as. chain h (Some r) as" by simp
  ultimately obtain res where "duplicateQueueSnapshots_loop g1 copy1 qs = Some res"
    using Cons.IH by blast
  with q d show ?case by simp
qed

lemma precheck_victims_fail:
  assumes "parentsInside n g" and "hierarchyWithoutGuarantee A g"
    and "n \<le> cq" and "cq < length g" and "QueuePath (g ! cq) \<in> A"
    and "n \<le> snapshot" and "snapshot < length g"
  shows "\<exists>g'. checkPreemptionQueueGuarantees_victims g cq snapshot vs = Some (g', False) \<and> staticEq g g'"
  using assms
proof (induction vs arbitrary: g)
  case Nil
  show ?case by (simp add: staticEq_refl)
next
  case (Cons v vs)
  from chain_inside[OF Cons.prems(1) Cons.prems(6,7)] obtain as where "chain g (Some snapshot) as"
    by blast
  from RemoveAllocation_staticEq[OF this, of "allocatedResource v"] obtain g1 where
    r: "RemoveAllocation g (Some snapshot) (allocatedResource v) = Some g1" and s1: "staticEq g g1"
    by blast
  from s1 have len: "length g1 = length g" by (rule staticEq_length)
  from s1 Cons.prems(1) have pi1: "parentsInside n g1" by (rule staticEq_parentsInside)
  from s1 Cons.prems(2) have hi1: "hierarchyWithoutGuarantee A g1" by (rule staticEq_hierarchy)
  from staticEq_cell(2)[OF s1 Cons.prems(4)] Cons.prems(5) have path1: "QueuePath (g1 ! cq) \<in> A"
    by simp
  from Cons.prems(4) len have cq1: "cq < length g1" by simp
  from Cons.prems(7) len have sn1: "snapshot < length g1" by simp
  from chain_inside[OF pi1 Cons.prems(3) cq1] obtain bs where bs: "chain g1 (Some cq) bs"
    by blast
  from chain_hierarchy[OF bs hi1] path1 have "\<forall>i\<in>set bs. IsEmpty (GuaranteedResource (g1 ! i))"
    by simp
  from GetRemainingGuaranteedResource_nil[OF bs this]
  have rem: "GetRemainingGuaranteedResource g1 (Some cq) = Some None" .
  from Cons.IH[OF pi1 hi1 Cons.prems(3) cq1 path1 Cons.prems(6) sn1] obtain g' where
    g': "checkPreemptionQueueGuarantees_victims g1 cq snapshot vs = Some (g', False)"
    and s2: "staticEq g1 g'" by blast
  from r rem g' have "checkPreemptionQueueGuarantees_victims g cq snapshot (v # vs) = Some (g', False)"
    by (simp add: remainingCovers_def)
  with staticEq_trans[OF s1 s2] show ?case by blast
qed

lemma precheck_queues_fail:
  assumes "parentsInside n g" and "hierarchyWithoutGuarantee A g"
    and "n \<le> cq" and "cq < length g" and "QueuePath (g ! cq) \<in> A"
    and "\<forall>(k, r)\<in>set qs. n \<le> r \<and> r < length g"
  shows "\<exists>g'. checkPreemptionQueueGuarantees_queues g cq qs = Some (g', False) \<and> staticEq g g'"
  using assms
proof (induction qs arbitrary: g)
  case Nil
  show ?case by (simp add: staticEq_refl)
next
  case (Cons q qs)
  obtain path snapshot where q: "q = (path, snapshot)" by (cases q)
  with Cons.prems(6) have sn: "n \<le> snapshot" "snapshot < length g" by simp_all
  from precheck_victims_fail[OF Cons.prems(1-5) sn, of "PotentialVictims (g ! snapshot)"]
  obtain g1 where
    v: "checkPreemptionQueueGuarantees_victims g cq snapshot (PotentialVictims (g ! snapshot)) = Some (g1, False)"
    and s1: "staticEq g g1" by blast
  from s1 have len: "length g1 = length g" by (rule staticEq_length)
  from s1 Cons.prems(1) have pi1: "parentsInside n g1" by (rule staticEq_parentsInside)
  from s1 Cons.prems(2) have hi1: "hierarchyWithoutGuarantee A g1" by (rule staticEq_hierarchy)
  from staticEq_cell(2)[OF s1 Cons.prems(4)] Cons.prems(5) have path1: "QueuePath (g1 ! cq) \<in> A"
    by simp
  from Cons.prems(4) len have cq1: "cq < length g1" by simp
  from Cons.prems(6) len have qs1: "\<forall>(k, r)\<in>set qs. n \<le> r \<and> r < length g1" by simp
  from Cons.IH[OF pi1 hi1 Cons.prems(3) cq1 path1 qs1] obtain g' where
    g': "checkPreemptionQueueGuarantees_queues g1 cq qs = Some (g', False)"
    and s2: "staticEq g1 g'" by blast
  from q sn v g' have "checkPreemptionQueueGuarantees_queues g cq (q # qs) = Some (g', False)"
    by simp
  with staticEq_trans[OF s1 s2] show ?case by blast
qed

lemma checkPreemptionQueueGuarantees_fail:
  assumes "queuePath p \<in> A" and "hierarchyWithoutGuarantee A h"
    and "\<forall>(k, r)\<in>set (mapEntries (allocationsByQueue (initQueueSnapshots c p))). \<exists>as. chain h (Some r) as"
  shows "\<exists>h'. checkPreemptionQueueGuarantees c h p = Some (h', initQueueSnapshots c p, False)"
proof -
  let ?p = "initQueueSnapshots c p"
  let ?Q = "\<lambda>path guaranteed (askQueue :: nat option). path \<in> A \<longrightarrow> IsEmpty guaranteed"
  let ?E = "{(child, parent). child \<in> A \<longrightarrow> parent \<in> A}"
  have qp: "queuePath ?p = queuePath p"
    by (simp add: initQueueSnapshots_def)
  from duplicateQueueSnapshots_loop_returns[OF assms(3), of h "[]"] obtain h1 queues where
    d: "duplicateQueueSnapshots h ?p = Some (h1, queues)"
    by (auto simp: duplicateQueueSnapshots_def)
  then have l: "duplicateQueueSnapshots_loop h [] (mapEntries (allocationsByQueue ?p)) = Some (h1, queues)"
    by (simp add: duplicateQueueSnapshots_def)
  from duplicateQueueSnapshots_loop_invariant[OF l order_refl parentsInside_empty cacheInside_empty,
      of ?Q ?E] assms(2)
  have pi: "parentsInside (length h) h1" and ci: "cacheInside (length h) h1 queues"
    and hi: "hierarchyWithoutGuarantee A h1"
    by (simp_all add: dupPost_def hierarchyWithoutGuarantee_def)
  show ?thesis
  proof (cases "map_of queues (queuePath p)")
    case None
    with d qp show ?thesis by (simp add: checkPreemptionQueueGuarantees_def)
  next
    case (Some cq)
    then have "(queuePath p, cq) \<in> set queues" by (rule map_of_SomeD)
    with ci have cq: "length h \<le> cq" "cq < length h1" "QueuePath (h1 ! cq) = queuePath p"
      unfolding cacheInside_def by blast+
    from chain_inside[OF pi cq(1,2)] obtain as where "chain h1 (Some cq) as" by blast
    from AddAllocation_staticEq[OF this, of "allocatedResource (ask ?p)"] obtain h2 where
      a: "AddAllocation h1 (Some cq) (allocatedResource (ask ?p)) = Some h2" and s: "staticEq h1 h2"
      by blast
    from s have len: "length h2 = length h1" by (rule staticEq_length)
    from s pi have pi2: "parentsInside (length h) h2" by (rule staticEq_parentsInside)
    from s hi have hi2: "hierarchyWithoutGuarantee A h2" by (rule staticEq_hierarchy)
    from staticEq_cell(2)[OF s cq(2)] cq(3) assms(1) have path2: "QueuePath (h2 ! cq) \<in> A" by simp
    from cq(2) len have cq2: "cq < length h2" by simp
    from ci len have qs2: "\<forall>(k, r)\<in>set queues. length h \<le> r \<and> r < length h2"
      unfolding cacheInside_def by auto
    from precheck_queues_fail[OF pi2 hi2 cq(1) cq2 path2 qs2] obtain h3 where
      "checkPreemptionQueueGuarantees_queues h2 cq queues = Some (h3, False)" by blast
    with d qp Some a show ?thesis by (simp add: checkPreemptionQueueGuarantees_def)
  qed
qed

subsection \<open>Claim C10\<close>

text \<open>
  Claim C10. Let \<open>A\<close> be the queue paths of the hierarchy of the ask queue: the path of the
  ask queue is in \<open>A\<close>, and every snapshot with a path in \<open>A\<close> has no guaranteed resource and
  a parent with a path in \<open>A\<close>. Then, for snapshots whose parent pointers end at a root,
  \<^verbatim>\<open>TryPreemption\<close> returns \<^verbatim>\<open>(nil, false)\<close>: the remaining guarantee of the ask queue is nil
  after the ask has been added and after each victim has been removed, so the feasibility
  precheck fails.
\<close>

theorem TryPreemption_without_guarantee:
  assumes "queuePath p \<in> A" and "hierarchyWithoutGuarantee A h"
    and "\<forall>(k, r)\<in>set (mapEntries (allocationsByQueue (initQueueSnapshots c p))). \<exists>as. chain h (Some r) as"
  shows "\<exists>h' p' e. TryPreemption c h p = Some (h', p', e, None, False)"
proof -
  from checkPreemptionQueueGuarantees_fail[OF assms] obtain h' where
    "checkPreemptionQueueGuarantees c h p = Some (h', initQueueSnapshots c p, False)" by blast
  then show ?thesis by (simp add: TryPreemption_def)
qed

theorem TryPreemption_without_guarantee_witness:
  "map_option (snd \<circ> snd \<circ> snd) (TryPreemption S2_collaborators noGuarantee_heap S2_preemptor) =
     Some (None, False)"
proof -
  have a: "queuePath S2_preemptor \<in> {''root'', ''root.a''}"
    by (simp add: S2_preemptor_def exPreemptor_def)
  have l: "length noGuarantee_heap = 3"
    by (simp add: noGuarantee_heap_def)
  have i: "i < 3 \<longleftrightarrow> i = 0 \<or> i = 1 \<or> i = 2" for i :: nat
    by auto
  have h: "hierarchyWithoutGuarantee {''root'', ''root.a''} noGuarantee_heap"
    unfolding hierarchyWithoutGuarantee_def allCells_def edgesIn_def l i
    by (auto simp: noGuarantee_heap_def exQueue_def IsEmpty_Zero)
  have e: "mapEntries (allocationsByQueue (initQueueSnapshots S2_collaborators S2_preemptor)) =
             [(''root'', 0), (''root.a'', 1), (''root.b'', 2)]"
    by code_simp
  have "chain noGuarantee_heap (Some 0) [0]" "chain noGuarantee_heap (Some 1) [1, 0]"
    "chain noGuarantee_heap (Some 2) [2, 0]"
    by (auto intro!: chain.intros simp: noGuarantee_heap_def exQueue_def)
  then have c: "\<forall>(k, r)\<in>set (mapEntries (allocationsByQueue (initQueueSnapshots S2_collaborators S2_preemptor))).
                  \<exists>as. chain noGuarantee_heap (Some r) as"
    unfolding e by auto
  from TryPreemption_without_guarantee[OF a h c] show ?thesis by auto
qed

end
